theory Spec2Isabelle
  imports Main "HOL-Library.Word" "HOL-Library.Monad_Syntax" "HOL-Library.Signed_Division"
    "HOL-Library.AList"
begin

unbundle bit_operations_syntax

section \<open>Go values and runtime failures\<close>

text \<open>
  A Go \<^verbatim>\<open>interface{}\<close> value is either \<^verbatim>\<open>nil\<close> or a boxed value. A Go call that does
  not return normally (an index out of range, a nil dereference, a division by zero, a
  single-threaded deadlock on a mutex, or a loop that never ends) is the result \<open>None\<close>;
  a call that returns \<open>r\<close> is \<open>Some r\<close>.
\<close>

datatype 'v iface = nil | Val 'v

text \<open>
  Go's \<^verbatim>\<open>int\<close> is taken to be 64 bits wide (amd64, arm64). It is modelled as an \<open>int\<close>
  in the range \<open>-2^63 ..< 2^63\<close>; arithmetic that can leave the range wraps around.
\<close>

definition wrap64 :: "int \<Rightarrow> int" where
  "wrap64 x = (x + 2 ^ 63) mod 2 ^ 64 - 2 ^ 63"

text \<open>Go's integer division truncates towards zero and panics on a zero divisor.\<close>

definition go_div :: "int \<Rightarrow> int \<Rightarrow> int option" where
  "go_div a b = (if b = 0 then None else Some (wrap64 (a sdiv b)))"

text \<open>Slices: \<^verbatim>\<open>make\<close>, an indexed read and an indexed write, each with Go's bounds check.\<close>

definition make_slice :: "int \<Rightarrow> 'a \<Rightarrow> 'a list option" where
  "make_slice n x = (if 0 \<le> n then Some (replicate (nat n) x) else None)"

definition index :: "'a list \<Rightarrow> int \<Rightarrow> 'a option" where
  "index xs i = (if 0 \<le> i \<and> i < int (length xs) then Some (xs ! nat i) else None)"

definition store :: "'a list \<Rightarrow> int \<Rightarrow> 'a \<Rightarrow> 'a list option" where
  "store xs i x = (if 0 \<le> i \<and> i < int (length xs) then Some (xs[nat i := x]) else None)"

section \<open>The collaborators of map.go\<close>

subsection \<open>The shard store (package rhh)\<close>

text \<open>
  Modelled from the spec: the ShardStore, package \<^verbatim>\<open>github.com/tidwall/rhh\<close>, which map.go
  imports and whose source is not part of the repository. The spec treats it as a
  black-box single-threaded hash table keyed by a string, with
  \<^verbatim>\<open>new(capacityHint)\<close>, \<^verbatim>\<open>set(key,value)->(prev,hadPrevious)\<close>, \<^verbatim>\<open>get(key)->(value,found)\<close>,
  \<^verbatim>\<open>delete(key)->(prev,hadValue)\<close>, \<^verbatim>\<open>len()\<close> and \<^verbatim>\<open>range(visit)\<close> with early stop.
  A store is the capacity hint it was built with and its entries, one per key, in the
  order in which \<^verbatim>\<open>range\<close> visits them.
\<close>

record 'v rhh =
  hint :: int
  entries :: "(string \<times> 'v iface) list"

definition rhh_New :: "int \<Rightarrow> 'v rhh" where
  "rhh_New c = \<lparr>hint = c, entries = []\<rparr>"

definition rhh_Get :: "'v rhh \<Rightarrow> string \<Rightarrow> 'v iface \<times> bool" where
  "rhh_Get st key = (case map_of (entries st) key of None \<Rightarrow> (nil, False) | Some v \<Rightarrow> (v, True))"

definition rhh_Set :: "'v rhh \<Rightarrow> string \<Rightarrow> 'v iface \<Rightarrow> ('v iface \<times> bool) \<times> 'v rhh" where
  "rhh_Set st key v = (rhh_Get st key, st\<lparr>entries := AList.update key v (entries st)\<rparr>)"

definition rhh_Delete :: "'v rhh \<Rightarrow> string \<Rightarrow> ('v iface \<times> bool) \<times> 'v rhh" where
  "rhh_Delete st key = (rhh_Get st key, st\<lparr>entries := AList.delete key (entries st)\<rparr>)"

definition rhh_Len :: "'v rhh \<Rightarrow> int" where
  "rhh_Len st = int (length (entries st))"

text \<open>
  A visitor is a Go closure: it reads and writes the variables it captured, here a state
  of type \<open>'s\<close>, and returns whether to go on.
\<close>

type_synonym ('v, 's) visitor = "string \<Rightarrow> 'v iface \<Rightarrow> 's \<Rightarrow> bool \<times> 's"

fun visit_entries :: "(string \<times> 'v iface) list \<Rightarrow> ('v, 's) visitor \<Rightarrow> 's \<Rightarrow> 's" where
  "visit_entries [] iter s = s"
| "visit_entries (kv # es) iter s =
     (case iter (fst kv) (snd kv) s of
        (True, s') \<Rightarrow> visit_entries es iter s'
      | (False, s') \<Rightarrow> s')"

definition rhh_Range :: "'v rhh \<Rightarrow> ('v, 's) visitor \<Rightarrow> 's \<Rightarrow> 's" where
  "rhh_Range st iter s = visit_entries (entries st) iter s"

subsection \<open>The hash function and the number of CPUs\<close>

text \<open>
  \<^verbatim>\<open>xxhash.Sum64String\<close> (a pure function from strings to \<^verbatim>\<open>uint64\<close>) and
  \<^verbatim>\<open>runtime.NumCPU()\<close> come from outside the repository; they are parameters.
\<close>

record env =
  Sum64String :: "string \<Rightarrow> 64 word"
  NumCPU :: int

subsection \<open>sync.RWMutex, seen by one thread\<close>

datatype RWMutex = Unlocked | RLocked nat | Locked

definition RWMutex_Lock :: "RWMutex \<Rightarrow> RWMutex option" where
  "RWMutex_Lock mu = (case mu of Unlocked \<Rightarrow> Some Locked | _ \<Rightarrow> None)"

definition RWMutex_Unlock :: "RWMutex \<Rightarrow> RWMutex option" where
  "RWMutex_Unlock mu = (case mu of Locked \<Rightarrow> Some Unlocked | _ \<Rightarrow> None)"

definition RWMutex_RLock :: "RWMutex \<Rightarrow> RWMutex option" where
  "RWMutex_RLock mu =
     (case mu of Unlocked \<Rightarrow> Some (RLocked 1) | RLocked n \<Rightarrow> Some (RLocked (n + 1)) | Locked \<Rightarrow> None)"

definition RWMutex_RUnlock :: "RWMutex \<Rightarrow> RWMutex option" where
  "RWMutex_RUnlock mu =
     (case mu of RLocked n \<Rightarrow> (if n = 0 then None else if n = 1 then Some Unlocked else Some (RLocked (n - 1)))
      | _ \<Rightarrow> None)"

section \<open>map.go\<close>

text \<open>
  \<^verbatim>\<open>type Map struct { init sync.Once; cap int; shards int; mus []sync.RWMutex; maps []*rhh.Map }\<close>.
  The \<^verbatim>\<open>sync.Once\<close> is its done flag; a \<^verbatim>\<open>*rhh.Map\<close> is \<open>None\<close> when it is the nil pointer.
  The stores behind distinct slots are distinct allocations, so a store is kept in its slot.
\<close>

record 'v Map =
  init :: bool
  cap :: int
  shards :: int
  mus :: "RWMutex list"
  maps :: "'v rhh option list"

text \<open>\<^verbatim>\<open>func New(cap int) *Map { return &Map{cap: cap} }\<close>; \<^verbatim>\<open>var m shardmap.Map\<close> is \<open>New 0\<close>.\<close>

definition New :: "int \<Rightarrow> 'v Map" where
  "New c = \<lparr>init = False, cap = c, shards = 0, mus = [], maps = []\<rparr>"

text \<open>\<^verbatim>\<open>for m.shards < runtime.NumCPU()*16 { m.shards *= 2 }\<close>\<close>

partial_function (option) initDo_shards :: "int \<Rightarrow> int \<Rightarrow> int option" where
  "initDo_shards s n = (if s < n then initDo_shards (wrap64 (s * 2)) n else Some s)"

declare initDo_shards.simps [code]

text \<open>\<^verbatim>\<open>for i := 0; i < len(m.maps); i++ { m.maps[i] = rhh.New(scap) }\<close>\<close>

function initDo_fill :: "'v rhh option list \<Rightarrow> int \<Rightarrow> int \<Rightarrow> 'v rhh option list option" where
  "initDo_fill ms i scap =
     (if i < int (length ms)
      then (case store ms i (Some (rhh_New scap)) of
              None \<Rightarrow> None
            | Some ms' \<Rightarrow> initDo_fill ms' (i + 1) scap)
      else Some ms)"
  by pat_completeness auto
termination
  by (relation "measure (\<lambda>(ms, i, scap). nat (int (length ms) - i))")
     (auto simp: store_def split: if_splits)

definition initDo :: "env \<Rightarrow> 'v Map \<Rightarrow> 'v Map option" where
  "initDo e m =
     (if init m then Some m
      else do {
        s \<leftarrow> initDo_shards 1 (wrap64 (NumCPU e * 16));
        scap \<leftarrow> go_div (cap m) s;
        mus' \<leftarrow> make_slice s Unlocked;
        maps' \<leftarrow> make_slice s None;
        maps'' \<leftarrow> initDo_fill maps' 0 scap;
        Some (m\<lparr>init := True, shards := s, mus := mus', maps := maps''\<rparr>)
      })"

text \<open>\<^verbatim>\<open>return int(xxhash.Sum64String(key) & uint64(m.shards-1))\<close>\<close>

definition choose_shard :: "env \<Rightarrow> 'v Map \<Rightarrow> string \<Rightarrow> int" where
  "choose_shard e m key = sint (Sum64String e key AND (word_of_int (shards m - 1) :: 64 word))"

text \<open>\<^verbatim>\<open>m.mus[i].Lock()\<close> and its three siblings.\<close>

definition on_mu :: "(RWMutex \<Rightarrow> RWMutex option) \<Rightarrow> 'v Map \<Rightarrow> int \<Rightarrow> 'v Map option" where
  "on_mu f m i = do {
     mu \<leftarrow> index (mus m) i;
     mu' \<leftarrow> f mu;
     mus' \<leftarrow> store (mus m) i mu';
     Some (m\<lparr>mus := mus'\<rparr>)
   }"

definition Lock :: "'v Map \<Rightarrow> int \<Rightarrow> 'v Map option" where
  "Lock = on_mu RWMutex_Lock"

definition Unlock :: "'v Map \<Rightarrow> int \<Rightarrow> 'v Map option" where
  "Unlock = on_mu RWMutex_Unlock"

definition RLock :: "'v Map \<Rightarrow> int \<Rightarrow> 'v Map option" where
  "RLock = on_mu RWMutex_RLock"

definition RUnlock :: "'v Map \<Rightarrow> int \<Rightarrow> 'v Map option" where
  "RUnlock = on_mu RWMutex_RUnlock"

text \<open>\<^verbatim>\<open>m.maps[i]\<close>, dereferenced: the read of a store and the write back of its new state.\<close>

definition shard :: "'v Map \<Rightarrow> int \<Rightarrow> 'v rhh option" where
  "shard m i = do { p \<leftarrow> index (maps m) i; p }"

definition shard_update :: "'v Map \<Rightarrow> int \<Rightarrow> 'v rhh \<Rightarrow> 'v Map option" where
  "shard_update m i st = do {
     maps' \<leftarrow> store (maps m) i (Some st);
     Some (m\<lparr>maps := maps'\<rparr>)
   }"

definition shard_Set :: "'v Map \<Rightarrow> int \<Rightarrow> string \<Rightarrow> 'v iface \<Rightarrow> (('v iface \<times> bool) \<times> 'v Map) option" where
  "shard_Set m i key v = do {
     st \<leftarrow> shard m i;
     m' \<leftarrow> shard_update m i (snd (rhh_Set st key v));
     Some (fst (rhh_Set st key v), m')
   }"

definition shard_Delete :: "'v Map \<Rightarrow> int \<Rightarrow> string \<Rightarrow> (('v iface \<times> bool) \<times> 'v Map) option" where
  "shard_Delete m i key = do {
     st \<leftarrow> shard m i;
     m' \<leftarrow> shard_update m i (snd (rhh_Delete st key));
     Some (fst (rhh_Delete st key), m')
   }"

definition Set :: "env \<Rightarrow> 'v Map \<Rightarrow> string \<Rightarrow> 'v iface \<Rightarrow> (('v iface \<times> bool) \<times> 'v Map) option" where
  "Set e m0 key v = do {
     m \<leftarrow> initDo e m0;
     let i = choose_shard e m key;
     m \<leftarrow> Lock m i;
     (r, m) \<leftarrow> shard_Set m i key v;
     m \<leftarrow> Unlock m i;
     Some (r, m)
   }"

definition Get :: "env \<Rightarrow> 'v Map \<Rightarrow> string \<Rightarrow> (('v iface \<times> bool) \<times> 'v Map) option" where
  "Get e m0 key = do {
     m \<leftarrow> initDo e m0;
     let i = choose_shard e m key;
     m \<leftarrow> RLock m i;
     st \<leftarrow> shard m i;
     let r = rhh_Get st key;
     m \<leftarrow> RUnlock m i;
     Some (r, m)
   }"

definition Delete :: "env \<Rightarrow> 'v Map \<Rightarrow> string \<Rightarrow> (('v iface \<times> bool) \<times> 'v Map) option" where
  "Delete e m0 key = do {
     m \<leftarrow> initDo e m0;
     let i = choose_shard e m key;
     m \<leftarrow> Lock m i;
     (r, m) \<leftarrow> shard_Delete m i key;
     m \<leftarrow> Unlock m i;
     Some (r, m)
   }"

text \<open>
  An \<^verbatim>\<open>accept\<close> callback is \<open>None\<close> when the caller passes \<^verbatim>\<open>nil\<close>. The deferred
  \<^verbatim>\<open>Unlock\<close> runs on the way out.
\<close>

type_synonym 'v accept = "('v iface \<Rightarrow> bool \<Rightarrow> bool) option"

definition SetAccept ::
  "env \<Rightarrow> 'v Map \<Rightarrow> string \<Rightarrow> 'v iface \<Rightarrow> 'v accept \<Rightarrow> (('v iface \<times> bool) \<times> 'v Map) option" where
  "SetAccept e m0 key v accept = do {
     m \<leftarrow> initDo e m0;
     let i = choose_shard e m key;
     m \<leftarrow> Lock m i;
     ((prev, replaced), m) \<leftarrow> shard_Set m i key v;
     (r, m) \<leftarrow>
       (case accept of
          None \<Rightarrow> Some ((prev, replaced), m)
        | Some f \<Rightarrow>
            if \<not> f prev replaced then do {
              (_, m) \<leftarrow> (if \<not> replaced then shard_Delete m i key else shard_Set m i key prev);
              Some ((nil, False), m)
            } else Some ((prev, replaced), m));
     m \<leftarrow> Unlock m i;
     Some (r, m)
   }"

definition DeleteAccept ::
  "env \<Rightarrow> 'v Map \<Rightarrow> string \<Rightarrow> 'v accept \<Rightarrow> (('v iface \<times> bool) \<times> 'v Map) option" where
  "DeleteAccept e m0 key accept = do {
     m \<leftarrow> initDo e m0;
     let i = choose_shard e m key;
     m \<leftarrow> Lock m i;
     ((prev, deleted), m) \<leftarrow> shard_Delete m i key;
     (r, m) \<leftarrow>
       (case accept of
          None \<Rightarrow> Some ((prev, deleted), m)
        | Some f \<Rightarrow>
            if \<not> f prev deleted then do {
              m \<leftarrow> (if deleted then map_option snd (shard_Set m i key prev) else Some m);
              Some ((nil, False), m)
            } else Some ((prev, deleted), m));
     m \<leftarrow> Unlock m i;
     Some (r, m)
   }"

text \<open>
  The three loops over the shards. The counter \<open>i\<close> stays below \<^verbatim>\<open>m.shards\<close>, itself an
  \<^verbatim>\<open>int\<close>, so \<^verbatim>\<open>i++\<close> cannot overflow.
\<close>

declare Option.bind_cong [fundef_cong]

text \<open>
  \<^verbatim>\<open>for i := 0; i < m.shards; i++ { m.mus[i].Lock(); m.maps[i] = rhh.New(m.cap / m.shards); m.mus[i].Unlock() }\<close>
\<close>

function Clear_loop :: "'v Map \<Rightarrow> int \<Rightarrow> 'v Map option" where
  "Clear_loop m i =
     (if i < shards m then do {
        m1 \<leftarrow> Lock m i;
        scap \<leftarrow> go_div (cap m1) (shards m1);
        m2 \<leftarrow> shard_update m1 i (rhh_New scap);
        m3 \<leftarrow> Unlock m2 i;
        Clear_loop m3 (i + 1)
      } else Some m)"
  by pat_completeness auto
termination
  by (relation "measure (\<lambda>(m, i). nat (shards m - i))")
     (auto simp: Lock_def Unlock_def on_mu_def shard_update_def bind_eq_Some_conv)

definition Clear :: "env \<Rightarrow> 'v Map \<Rightarrow> 'v Map option" where
  "Clear e m0 = do { m \<leftarrow> initDo e m0; Clear_loop m 0 }"

text \<open>
  \<^verbatim>\<open>for i := 0; i < m.shards; i++ { m.mus[i].Lock(); len += m.maps[i].Len(); m.mus[i].Unlock() }\<close>
\<close>

function Len_loop :: "'v Map \<Rightarrow> int \<Rightarrow> int \<Rightarrow> (int \<times> 'v Map) option" where
  "Len_loop m i len =
     (if i < shards m then do {
        m1 \<leftarrow> Lock m i;
        st \<leftarrow> shard m1 i;
        m2 \<leftarrow> Unlock m1 i;
        Len_loop m2 (i + 1) (wrap64 (len + rhh_Len st))
      } else Some (len, m))"
  by pat_completeness auto
termination
  by (relation "measure (\<lambda>(m, i, len). nat (shards m - i))")
     (auto simp: Lock_def Unlock_def on_mu_def bind_eq_Some_conv)

definition Len :: "env \<Rightarrow> 'v Map \<Rightarrow> (int \<times> 'v Map) option" where
  "Len e m0 = do { m \<leftarrow> initDo e m0; Len_loop m 0 0 }"

text \<open>
  The closure that \<^verbatim>\<open>Range\<close> hands to the store: it calls \<^verbatim>\<open>iter\<close> and, when that
  returns false, sets the captured \<^verbatim>\<open>done\<close> and stops the store's iteration.
\<close>

definition Range_visit :: "('v, 's) visitor \<Rightarrow> ('v, bool \<times> 's) visitor" where
  "Range_visit iter key v ds =
     (case iter key v (snd ds) of
        (False, s') \<Rightarrow> (False, (True, s'))
      | (True, s') \<Rightarrow> (True, (fst ds, s')))"

function Range_loop :: "'v Map \<Rightarrow> int \<Rightarrow> ('v, 's) visitor \<Rightarrow> bool \<times> 's \<Rightarrow> ('s \<times> 'v Map) option" where
  "Range_loop m i iter ds =
     (if i < shards m then do {
        m1 \<leftarrow> RLock m i;
        st \<leftarrow> shard m1 i;
        let ds' = rhh_Range st (Range_visit iter) ds;
        m2 \<leftarrow> RUnlock m1 i;
        if fst ds' then Some (snd ds', m2) else Range_loop m2 (i + 1) iter ds'
      } else Some (snd ds, m))"
  by pat_completeness auto
termination
  by (relation "measure (\<lambda>(m, i, iter, ds). nat (shards m - i))")
     (auto simp: RLock_def RUnlock_def on_mu_def bind_eq_Some_conv)

definition Range :: "env \<Rightarrow> 'v Map \<Rightarrow> ('v, 's) visitor \<Rightarrow> 's \<Rightarrow> ('s \<times> 'v Map) option" where
  "Range e m0 iter s = do { m \<leftarrow> initDo e m0; Range_loop m 0 iter (False, s) }"

text \<open>The loops are unfolded by hand, one iteration at a time.\<close>

declare initDo_fill.simps [simp del]
declare Clear_loop.simps [simp del]
declare Len_loop.simps [simp del]
declare Range_loop.simps [simp del]

section \<open>Sequences of calls\<close>

text \<open>One call of the public interface, and what it returns.\<close>

datatype ('v, 's) op =
    OpSet string "'v iface"
  | OpGet string
  | OpDelete string
  | OpSetAccept string "'v iface" "'v accept"
  | OpDeleteAccept string "'v accept"
  | OpLen
  | OpRange "('v, 's) visitor" 's
  | OpClear

datatype ('v, 's) ret =
    RetPair "'v iface \<times> bool"
  | RetLen int
  | RetRange 's
  | RetClear

definition ret_pair :: "(('v iface \<times> bool) \<times> 'v Map) option \<Rightarrow> (('v, 's) ret \<times> 'v Map) option" where
  "ret_pair x = map_option (\<lambda>(r, m). (RetPair r, m)) x"

fun exec_op :: "env \<Rightarrow> 'v Map \<Rightarrow> ('v, 's) op \<Rightarrow> (('v, 's) ret \<times> 'v Map) option" where
  "exec_op e m (OpSet key v) = ret_pair (Set e m key v)"
| "exec_op e m (OpGet key) = ret_pair (Get e m key)"
| "exec_op e m (OpDelete key) = ret_pair (Delete e m key)"
| "exec_op e m (OpSetAccept key v accept) = ret_pair (SetAccept e m key v accept)"
| "exec_op e m (OpDeleteAccept key accept) = ret_pair (DeleteAccept e m key accept)"
| "exec_op e m OpLen = map_option (\<lambda>(n, m'). (RetLen n, m')) (Len e m)"
| "exec_op e m (OpRange iter s) = map_option (\<lambda>(s', m'). (RetRange s', m')) (Range e m iter s)"
| "exec_op e m OpClear = map_option (\<lambda>m'. (RetClear, m')) (Clear e m)"

fun exec_ops :: "env \<Rightarrow> 'v Map \<Rightarrow> ('v, 's) op list \<Rightarrow> (('v, 's) ret list \<times> 'v Map) option" where
  "exec_ops e m [] = Some ([], m)"
| "exec_ops e m (c # cs) = do {
     (r, m1) \<leftarrow> exec_op e m c;
     (rs, m2) \<leftarrow> exec_ops e m1 cs;
     Some (r # rs, m2)
   }"

text \<open>Whether a call sets the key: a \<^verbatim>\<open>Set\<close> or a \<^verbatim>\<open>SetAccept\<close> of it.\<close>

fun sets_key :: "string \<Rightarrow> ('v, 's) op \<Rightarrow> bool" where
  "sets_key key (OpSet k v) = (k = key)"
| "sets_key key (OpSetAccept k v accept) = (k = key)"
| "sets_key key c = False"

section \<open>The environment, the representation invariant and the abstraction\<close>

text \<open>
  \<^verbatim>\<open>runtime.NumCPU()\<close> is at least 1; with at most \<open>2^58\<close> CPUs the product
  \<^verbatim>\<open>runtime.NumCPU()*16\<close> and the doubling of \<^verbatim>\<open>m.shards\<close> stay inside a 64-bit \<^verbatim>\<open>int\<close>.
\<close>

definition env_ok :: "env \<Rightarrow> bool" where
  "env_ok e \<longleftrightarrow> 0 < NumCPU e \<and> NumCPU e \<le> 2 ^ 58"

text \<open>
  The states a map can be in between two calls. Before the first call nothing is
  required. After it, the shard count is a power of two, there is one unlocked mutex
  and one store per shard, no store holds a key twice, and every key sits in the store
  that \<open>choose_shard\<close> routes it to.
\<close>

definition store_ok :: "env \<Rightarrow> 'v Map \<Rightarrow> nat \<Rightarrow> bool" where
  "store_ok e m i \<longleftrightarrow>
     (case maps m ! i of
        None \<Rightarrow> False
      | Some st \<Rightarrow> distinct (map fst (entries st)) \<and>
          list_all (\<lambda>kv. choose_shard e m (fst kv) = int i) (entries st))"

definition Map_inv :: "env \<Rightarrow> 'v Map \<Rightarrow> bool" where
  "Map_inv e m \<longleftrightarrow>
     (init m \<longrightarrow>
        (\<exists>k\<le>62. shards m = 2 ^ k) \<and>
        mus m = replicate (nat (shards m)) Unlocked \<and>
        length (maps m) = nat (shards m) \<and>
        (\<forall>i<length (maps m). store_ok e m i))"

text \<open>The key/value map that the stores stand for: a key is looked up in its shard.\<close>

definition contents :: "env \<Rightarrow> 'v Map \<Rightarrow> string \<rightharpoonup> 'v iface" where
  "contents e m key =
     (if init m
      then (case shard m (choose_shard e m key) of None \<Rightarrow> None | Some st \<Rightarrow> map_of (entries st) key)
      else None)"

text \<open>The entries of one store, and the map with the entries of one store replaced.\<close>

definition shard_entries :: "'v Map \<Rightarrow> int \<Rightarrow> (string \<times> 'v iface) list" where
  "shard_entries m i = (case shard m i of None \<Rightarrow> [] | Some st \<Rightarrow> entries st)"

definition set_entries :: "'v Map \<Rightarrow> int \<Rightarrow> (string \<times> 'v iface) list \<Rightarrow> 'v Map" where
  "set_entries m i es =
     m\<lparr>maps := (maps m)[nat i := map_option (\<lambda>st. st\<lparr>entries := es\<rparr>) (maps m ! nat i)]\<rparr>"

definition has_store :: "'v Map \<Rightarrow> int \<Rightarrow> bool" where
  "has_store m i \<longleftrightarrow> 0 \<le> i \<and> i < int (length (maps m)) \<and> maps m ! nat i \<noteq> None"

text \<open>Whether a visitor stops the iteration over a list of entries.\<close>

fun stops :: "(string \<times> 'v iface) list \<Rightarrow> ('v, 's) visitor \<Rightarrow> 's \<Rightarrow> bool" where
  "stops [] iter s = False"
| "stops (kv # es) iter s =
     (case iter (fst kv) (snd kv) s of
        (True, s') \<Rightarrow> stops es iter s'
      | (False, s') \<Rightarrow> True)"

text \<open>The entries of the stores from slot \<open>i\<close> on.\<close>

definition entries_from :: "'v Map \<Rightarrow> int \<Rightarrow> (string \<times> 'v iface) list" where
  "entries_from m i =
     concat (map (\<lambda>p. case p of None \<Rightarrow> [] | Some st \<Rightarrow> entries st) (drop (nat i) (maps m)))"

text \<open>
  A visitor that also records, in a list it captured, every entry it is called with.
\<close>

definition traced :: "('v, 's) visitor \<Rightarrow> ('v, 's \<times> (string \<times> 'v iface) list) visitor" where
  "traced iter key v st =
     (case iter key v (fst st) of (b, s') \<Rightarrow> (b, (s', snd st @ [(key, v)])))"

section \<open>A single logical key/value map\<close>

text \<open>
  The spec's reference behaviour: one map from keys to values, with the operations of
  the spec's section 4.3 on it. \<^verbatim>\<open>Range\<close> visits the entries in some order, each once.
\<close>

definition spec_lookup :: "(string \<rightharpoonup> 'v iface) \<Rightarrow> string \<Rightarrow> 'v iface \<times> bool" where
  "spec_lookup a key = (case a key of None \<Rightarrow> (nil, False) | Some v \<Rightarrow> (v, True))"

definition accepted :: "'v accept \<Rightarrow> 'v iface \<times> bool \<Rightarrow> bool" where
  "accepted accept r = (case accept of None \<Rightarrow> True | Some f \<Rightarrow> f (fst r) (snd r))"

fun spec_next :: "(string \<rightharpoonup> 'v iface) \<Rightarrow> ('v, 's) op \<Rightarrow> (string \<rightharpoonup> 'v iface)" where
  "spec_next a (OpSet key v) = a(key \<mapsto> v)"
| "spec_next a (OpGet key) = a"
| "spec_next a (OpDelete key) = a(key := None)"
| "spec_next a (OpSetAccept key v accept) =
     (if accepted accept (spec_lookup a key) then a(key \<mapsto> v)
      else if snd (spec_lookup a key) then (a(key \<mapsto> v))(key \<mapsto> fst (spec_lookup a key))
      else (a(key \<mapsto> v))(key := None))"
| "spec_next a (OpDeleteAccept key accept) =
     (if accepted accept (spec_lookup a key) then a(key := None)
      else if snd (spec_lookup a key) then (a(key := None))(key \<mapsto> fst (spec_lookup a key))
      else a(key := None))"
| "spec_next a OpLen = a"
| "spec_next a (OpRange iter s) = a"
| "spec_next a OpClear = Map.empty"

fun spec_ret :: "(string \<rightharpoonup> 'v iface) \<Rightarrow> ('v, 's) op \<Rightarrow> ('v, 's) ret \<Rightarrow> bool" where
  "spec_ret a (OpSet key v) r = (r = RetPair (spec_lookup a key))"
| "spec_ret a (OpGet key) r = (r = RetPair (spec_lookup a key))"
| "spec_ret a (OpDelete key) r = (r = RetPair (spec_lookup a key))"
| "spec_ret a (OpSetAccept key v accept) r =
     (r = RetPair (if accepted accept (spec_lookup a key) then spec_lookup a key else (nil, False)))"
| "spec_ret a (OpDeleteAccept key accept) r =
     (r = RetPair (if accepted accept (spec_lookup a key) then spec_lookup a key else (nil, False)))"
| "spec_ret a OpLen r = (r = RetLen (int (card (dom a))))"
| "spec_ret a (OpRange iter s) r =
     (\<exists>es. distinct (map fst es) \<and> set es = Map.graph a \<and> r = RetRange (visit_entries es iter s))"
| "spec_ret a OpClear r = (r = RetClear)"

fun spec_run :: "(string \<rightharpoonup> 'v iface) \<Rightarrow> ('v, 's) op list \<Rightarrow> ('v, 's) ret list \<Rightarrow> (string \<rightharpoonup> 'v iface) \<Rightarrow> bool" where
  "spec_run a [] rs a' \<longleftrightarrow> rs = [] \<and> a' = a"
| "spec_run a (c # cs) rs a' \<longleftrightarrow>
     (case rs of [] \<Rightarrow> False | r # rs' \<Rightarrow> spec_ret a c r \<and> spec_run (spec_next a c) cs rs' a')"

section \<open>Concrete inputs\<close>

text \<open>
  An environment to run the code in: one CPU, and a hash function that is easy to
  follow (the length of the key).
\<close>

definition env0 :: env where
  "env0 = \<lparr>Sum64String = (\<lambda>s. of_nat (length s)), NumCPU = 1\<rparr>"

text \<open>Two callbacks, and a map that holds the entry \<open>hello \<mapsto> world\<close>.\<close>

definition accept_all :: "string iface \<Rightarrow> bool \<Rightarrow> bool" where
  "accept_all prev replaced = True"

definition reject_all :: "string iface \<Rightarrow> bool \<Rightarrow> bool" where
  "reject_all prev replaced = False"

definition hello_map :: "string Map" where
  "hello_map = snd (the (Set env0 (New 0) ''hello'' (Val ''world'')))"

text \<open>
  A map with three entries in three different shards (the keys have the lengths 5, 2
  and 3), a visitor that stops on the key \<open>hi\<close> and goes on past every other key, and
  a visitor that never stops.
\<close>

definition greeting_calls :: "(string, unit) op list" where
  "greeting_calls =
     [OpSet ''hello'' (Val ''world''), OpSet ''hi'' (Val ''there''), OpSet ''hey'' (Val ''you'')]"

definition greetings_map :: "string Map" where
  "greetings_map = snd (the (exec_ops env0 (New 0) greeting_calls))"

definition stop_on_hi :: "(string, unit) visitor" where
  "stop_on_hi key v u = (key \<noteq> ''hi'', u)"

definition visit_all :: "(string, unit) visitor" where
  "visit_all key v u = (True, u)"

text \<open>
  The spec's scenario on the key \<open>hello\<close>: \<^verbatim>\<open>Set\<close> to \<open>world\<close>, \<^verbatim>\<open>SetAccept\<close> of
  \<open>planet\<close> with the callback \<open>cb\<close>, \<^verbatim>\<open>Get\<close>, \<^verbatim>\<open>SetAccept\<close> of \<open>world\<close> with the callback
  \<open>cb2\<close>, \<^verbatim>\<open>Get\<close>.
\<close>

definition scenario :: "string accept \<Rightarrow> string accept \<Rightarrow> (string, unit) op list" where
  "scenario cb cb2 =
     [OpSet ''hello'' (Val ''world''), OpSetAccept ''hello'' (Val ''planet'') cb, OpGet ''hello'',
      OpSetAccept ''hello'' (Val ''world'') cb2, OpGet ''hello'']"

text \<open>Three entries with distinct keys.\<close>

definition three_entries :: "(string \<times> string iface) list" where
  "three_entries = [(''a'', Val ''1''), (''b'', Val ''2''), (''c'', Val ''3'')]"

text \<open>A short sequence of calls that touches every kind of operation.\<close>

definition count_visit :: "(string, nat) visitor" where
  "count_visit key v n = (True, Suc n)"

definition demo_calls :: "(string, nat) op list" where
  "demo_calls =
     [OpSet ''a'' (Val ''x''), OpGet ''a'', OpSetAccept ''b'' (Val ''y'') None,
      OpDeleteAccept ''a'' None, OpLen, OpRange count_visit 0, OpDelete ''b'', OpClear]"

section \<open>Running the code: closed forms\<close>

lemma wrap64_id: "- (2 ^ 63) \<le> x \<Longrightarrow> x < 2 ^ 63 \<Longrightarrow> wrap64 x = x"
  by (simp add: wrap64_def)

lemma initDo_shards_run:
  "0 < s \<Longrightarrow> n \<le> 2 ^ 62 \<Longrightarrow>
   \<exists>k. initDo_shards s n = Some (s * 2 ^ k) \<and> n \<le> s * 2 ^ k \<and> (\<forall>j<k. s * 2 ^ j < n)"
proof (induction "nat (n - s)" arbitrary: s rule: less_induct)
  case less
  show ?case
  proof (cases "s < n")
    case False
    then have "initDo_shards s n = Some (s * 2 ^ 0)"
      by (subst initDo_shards.simps) simp
    with False show ?thesis by (intro exI [of _ 0]) simp
  next
    case True
    with less.prems have w: "wrap64 (s * 2) = s * 2"
      by (intro wrap64_id) auto
    have "nat (n - s * 2) < nat (n - s)" using True less.prems by auto
    from less.hyps [OF this] less.prems obtain k where
      k: "initDo_shards (s * 2) n = Some (s * 2 * 2 ^ k)" "n \<le> s * 2 * 2 ^ k" "\<forall>j<k. s * 2 * 2 ^ j < n"
      by auto
    have "initDo_shards s n = Some (s * 2 ^ Suc k)"
      using True k(1) w by (subst initDo_shards.simps) (simp add: mult.assoc)
    moreover have "n \<le> s * 2 ^ Suc k" using k(2) by (simp add: mult.assoc)
    moreover have "\<forall>j<Suc k. s * 2 ^ j < n"
    proof (intro allI impI)
      fix j assume "j < Suc k"
      show "s * 2 ^ j < n"
      proof (cases j)
        case 0 then show ?thesis using True by simp
      next
        case (Suc j')
        with \<open>j < Suc k\<close> k(3) have "s * 2 * 2 ^ j' < n" by auto
        then show ?thesis using Suc by (simp add: mult.assoc)
      qed
    qed
    ultimately show ?thesis by blast
  qed
qed

lemma initDo_fill_run:
  "0 \<le> i \<Longrightarrow> initDo_fill ms i c = Some (take (nat i) ms @ replicate (length ms - nat i) (Some (rhh_New c)))"
proof (induction ms i c rule: initDo_fill.induct)
  case (1 ms i scap)
  show ?case
  proof (cases "i < int (length ms)")
    case False
    then show ?thesis by (subst initDo_fill.simps) simp
  next
    case True
    with "1.prems" have st: "store ms i (Some (rhh_New scap)) = Some (ms[nat i := Some (rhh_New scap)])"
      by (simp add: store_def)
    have "initDo_fill ms i scap = initDo_fill (ms[nat i := Some (rhh_New scap)]) (i + 1) scap"
      using True st by (subst initDo_fill.simps) simp
    also have "\<dots> = Some (take (nat (i + 1)) (ms[nat i := Some (rhh_New scap)]) @
        replicate (length ms - nat (i + 1)) (Some (rhh_New scap)))"
      using "1.IH" [OF True st] "1.prems" by simp
    also have "take (nat (i + 1)) (ms[nat i := Some (rhh_New scap)]) = take (nat i) ms @ [Some (rhh_New scap)]"
      using True "1.prems" by (simp add: nat_add_distrib take_Suc_conv_app_nth)
    also have "(take (nat i) ms @ [Some (rhh_New scap)]) @ replicate (length ms - nat (i + 1)) (Some (rhh_New scap))
        = take (nat i) ms @ replicate (length ms - nat i) (Some (rhh_New scap))"
    proof -
      have "length ms - nat i = Suc (length ms - nat (i + 1))" using True "1.prems" by auto
      then show ?thesis by simp
    qed
    finally show ?thesis .
  qed
qed

lemma and_pow_mask:
  fixes w :: "64 word"
  assumes "k \<le> 62"
  shows "sint (w AND word_of_int (2 ^ k - 1)) = uint w mod 2 ^ k"
proof -
  have m: "(word_of_int (2 ^ k - 1) :: 64 word) = mask k"
    by (simp add: mask_eq_exp_minus_1)
  have "uint (w AND mask k) = take_bit k (uint w)"
    by (simp add: unsigned_take_bit_eq flip: take_bit_eq_mask)
  then have u: "uint (w AND mask k) = uint w mod 2 ^ k"
    by (simp only: take_bit_eq_mod)
  define x where "x = uint w mod 2 ^ k"
  define p where "p = (2::int) ^ k"
  have "p \<le> 2 ^ 62" unfolding p_def using assms by (intro power_increasing) auto
  moreover have "x < p" "0 \<le> x" by (simp_all add: x_def p_def)
  ultimately have "- (2 ^ 63) \<le> x \<and> x < 2 ^ 63" by simp
  then have "- (2 ^ 63) \<le> uint (w AND mask k) \<and> uint (w AND mask k) < 2 ^ 63"
    unfolding u x_def .
  then have "sint (w AND mask k) = uint (w AND mask k)"
    by (simp add: sint_uint signed_take_bit_int_eq_self del: uint_and)
  with u m show ?thesis by simp
qed

lemma choose_shard_mod:
  assumes "shards m = 2 ^ k" "k \<le> 62"
  shows "choose_shard e m key = uint (Sum64String e key) mod shards m"
  using and_pow_mask [OF assms(2)] assms(1) by (simp add: choose_shard_def)

lemma choose_shard_bounds:
  assumes "shards m = 2 ^ k" "k \<le> 62"
  shows "0 \<le> choose_shard e m key \<and> choose_shard e m key < shards m"
  using assms by (simp add: choose_shard_mod [OF assms])


lemma initDo_fresh:
  assumes "env_ok e" "\<not> init m"
  shows "\<exists>k\<le>62. NumCPU e * 16 \<le> 2 ^ k \<and> (\<forall>j<k. 2 ^ j < NumCPU e * 16) \<and>
    initDo e m = Some (m\<lparr>init := True, shards := 2 ^ k, mus := replicate (2 ^ k) Unlocked,
       maps := replicate (2 ^ k) (Some (rhh_New (wrap64 (cap m sdiv 2 ^ k))))\<rparr>)"
proof -
  let ?n = "NumCPU e * 16"
  have n: "0 < ?n" "?n \<le> 2 ^ 62" using assms(1) by (simp_all add: env_ok_def)
  then have w: "wrap64 ?n = ?n" by (intro wrap64_id) auto
  from initDo_shards_run [of 1 ?n] n obtain k where
    k: "initDo_shards 1 ?n = Some (2 ^ k)" "?n \<le> 2 ^ k" "\<forall>j<k. 2 ^ j < ?n"
    by auto
  have k62: "k \<le> 62"
  proof (rule ccontr)
    assume "\<not> k \<le> 62"
    then have "62 < k" by simp
    with k(3) have "(2::int) ^ 62 < ?n" by blast
    with n show False by simp
  qed
  have nz: "(2::int) ^ k \<noteq> 0" by simp
  have nn: "nat (2 ^ k) = 2 ^ k" by (simp add: nat_power_eq)
  have fill: "initDo_fill (replicate (2 ^ k) None) 0 c = Some (replicate (2 ^ k) (Some (rhh_New c)))" for c :: int
    by (subst initDo_fill_run) simp_all
  have "initDo e m = Some (m\<lparr>init := True, shards := 2 ^ k, mus := replicate (2 ^ k) Unlocked,
       maps := replicate (2 ^ k) (Some (rhh_New (wrap64 (cap m sdiv 2 ^ k))))\<rparr>)"
    using assms(2) by (simp add: initDo_def w k(1) go_div_def make_slice_def nn fill)
  with k k62 show ?thesis by blast
qed


lemma Lock_run:
  "mus m = replicate n Unlocked \<Longrightarrow> 0 \<le> i \<Longrightarrow> nat i < n \<Longrightarrow>
   Lock m i = Some (m\<lparr>mus := (replicate n Unlocked)[nat i := Locked]\<rparr>)"
  by (simp add: Lock_def on_mu_def index_def store_def RWMutex_Lock_def)

lemma Unlock_run:
  "mus m = (replicate n Unlocked)[nat i := Locked] \<Longrightarrow> 0 \<le> i \<Longrightarrow> nat i < n \<Longrightarrow>
   Unlock m i = Some (m\<lparr>mus := replicate n Unlocked\<rparr>)"
  by (simp add: Unlock_def on_mu_def index_def store_def RWMutex_Unlock_def list_update_same_conv)

lemma RLock_run:
  "mus m = replicate n Unlocked \<Longrightarrow> 0 \<le> i \<Longrightarrow> nat i < n \<Longrightarrow>
   RLock m i = Some (m\<lparr>mus := (replicate n Unlocked)[nat i := RLocked 1]\<rparr>)"
  by (simp add: RLock_def on_mu_def index_def store_def RWMutex_RLock_def)

lemma RUnlock_run:
  "mus m = (replicate n Unlocked)[nat i := RLocked 1] \<Longrightarrow> 0 \<le> i \<Longrightarrow> nat i < n \<Longrightarrow>
   RUnlock m i = Some (m\<lparr>mus := replicate n Unlocked\<rparr>)"
  by (simp add: RUnlock_def on_mu_def index_def store_def RWMutex_RUnlock_def list_update_same_conv)

lemma shard_Some:
  "0 \<le> i \<Longrightarrow> nat i < length (maps m) \<Longrightarrow> maps m ! nat i = Some st \<Longrightarrow> shard m i = Some st"
  by (simp add: shard_def index_def)

lemma set_entries_fields [simp]:
  "init (set_entries m i es) = init m"
  "cap (set_entries m i es) = cap m"
  "shards (set_entries m i es) = shards m"
  "mus (set_entries m i es) = mus m"
  "length (maps (set_entries m i es)) = length (maps m)"
  by (simp_all add: set_entries_def)

lemma choose_shard_set_entries [simp]:
  "choose_shard e (set_entries m i es) = choose_shard e m"
  by (rule ext) (simp add: choose_shard_def)

lemma set_entries_mus [simp]:
  "set_entries (m\<lparr>mus := x\<rparr>) i es = (set_entries m i es)\<lparr>mus := x\<rparr>"
  by (simp add: set_entries_def)

lemma set_entries_twice [simp]:
  "set_entries (set_entries m i es) i es' = set_entries m i es'"
  by (cases "nat i < length (maps m)")
     (simp_all add: set_entries_def option.map_comp comp_def list_update_beyond)

lemma maps_set_entries_nth:
  "maps (set_entries m i es) ! j =
     (if j = nat i \<and> nat i < length (maps m)
      then map_option (\<lambda>st. st\<lparr>entries := es\<rparr>) (maps m ! nat i) else maps m ! j)"
  by (cases "nat i < length (maps m)")
     (auto simp: set_entries_def nth_list_update list_update_beyond)

lemma Map_inv_pow: "init m \<Longrightarrow> Map_inv e m \<Longrightarrow> \<exists>k\<le>62. shards m = 2 ^ k"
  by (simp add: Map_inv_def)

lemma Map_inv_index:
  assumes "init m" "Map_inv e m"
  shows "0 \<le> choose_shard e m key" "nat (choose_shard e m key) < nat (shards m)"
    "choose_shard e m key < shards m"
proof -
  from Map_inv_pow [OF assms] obtain k where k: "k \<le> 62" "shards m = 2 ^ k" by blast
  from choose_shard_bounds [OF k(2) k(1), of e key]
  show "0 \<le> choose_shard e m key" "nat (choose_shard e m key) < nat (shards m)"
    "choose_shard e m key < shards m"
    by simp_all
qed

lemma Map_inv_store:
  assumes "init m" "Map_inv e m" "0 \<le> i" "i < shards m"
  shows "\<exists>st. maps m ! nat i = Some st \<and> shard m i = Some st \<and> entries st = shard_entries m i \<and>
     distinct (map fst (entries st)) \<and> list_all (\<lambda>kv. choose_shard e m (fst kv) = i) (entries st)"
proof -
  have len: "nat i < length (maps m)" using assms by (simp add: Map_inv_def)
  with assms(1,2) have "store_ok e m (nat i)" by (simp add: Map_inv_def)
  then obtain st where st: "maps m ! nat i = Some st" "distinct (map fst (entries st))"
    "list_all (\<lambda>kv. choose_shard e m (fst kv) = int (nat i)) (entries st)"
    by (auto simp: store_ok_def split: option.splits)
  have "shard m i = Some st" using st(1) len assms(3) by (simp add: shard_Some)
  then show ?thesis using st assms(3) by (simp add: shard_entries_def)
qed

lemma shard_entries_set_entries:
  assumes "init m" "Map_inv e m" "0 \<le> i" "i < shards m" "0 \<le> j"
  shows "shard_entries (set_entries m i es) j = (if j = i then es else shard_entries m j)"
proof -
  from Map_inv_store [OF assms(1-4)] obtain st where st: "maps m ! nat i = Some st" by blast
  have len: "nat i < length (maps m)" "i < int (length (maps m))"
    using assms by (simp_all add: Map_inv_def)
  have eq: "(nat j = nat i) = (j = i)" using assms(3,5) by auto
  show ?thesis
    using st len assms(3,5)
    by (simp add: shard_entries_def shard_def index_def maps_set_entries_nth eq)
qed

lemma contents_shard_entries:
  assumes "init m" "Map_inv e m"
  shows "contents e m key = map_of (shard_entries m (choose_shard e m key)) key"
proof -
  from Map_inv_store [OF assms Map_inv_index(1,3) [OF assms]]
  obtain st where "shard m (choose_shard e m key) = Some st" by blast
  then show ?thesis using assms(1) by (simp add: contents_def shard_entries_def)
qed

lemma Map_inv_set_entries:
  assumes "init m" "Map_inv e m" "0 \<le> i" "i < shards m" "distinct (map fst es)"
    "list_all (\<lambda>kv. choose_shard e m (fst kv) = i) es"
  shows "Map_inv e (set_entries m i es)"
proof -
  from Map_inv_store [OF assms(1-4)] obtain st where st: "maps m ! nat i = Some st" by blast
  have len: "nat i < length (maps m)" using assms by (simp add: Map_inv_def)
  have "store_ok e (set_entries m i es) j" if "j < length (maps m)" for j
  proof (cases "j = nat i")
    case True
    then show ?thesis using st len assms(3,5,6)
      by (simp add: store_ok_def maps_set_entries_nth)
  next
    case False
    from that assms(1,2) have "store_ok e m j" by (simp add: Map_inv_def)
    with False show ?thesis
      by (simp add: store_ok_def maps_set_entries_nth split: option.splits)
  qed
  then show ?thesis using assms(1,2) by (simp add: Map_inv_def)
qed

lemma contents_set_entries:
  assumes "init m" "Map_inv e m" "0 \<le> i" "i < shards m" "distinct (map fst es)"
    "list_all (\<lambda>kv. choose_shard e m (fst kv) = i) es"
  shows "contents e (set_entries m i es) key =
     (if choose_shard e m key = i then map_of es key else contents e m key)"
proof -
  have inv': "Map_inv e (set_entries m i es)" by (rule Map_inv_set_entries [OF assms])
  have "contents e (set_entries m i es) key =
      map_of (shard_entries (set_entries m i es) (choose_shard e m key)) key"
    using contents_shard_entries [OF _ inv', of key] assms(1) by simp
  also have "\<dots> = (if choose_shard e m key = i then map_of es key
      else map_of (shard_entries m (choose_shard e m key)) key)"
    using shard_entries_set_entries [OF assms(1-4) Map_inv_index(1) [OF assms(1,2)], where key1 = key and es = es]
    by simp
  finally show ?thesis by (simp add: contents_shard_entries [OF assms(1,2)])
qed

lemma has_store_set_entries [simp]: "has_store (set_entries m i es) j = has_store m j"
  by (auto simp: has_store_def maps_set_entries_nth)

lemma has_store_mus [simp]: "has_store (m\<lparr>mus := x\<rparr>) j = has_store m j"
  by (simp add: has_store_def)

lemma shard_mus [simp]: "shard (m\<lparr>mus := x\<rparr>) j = shard m j"
  by (simp add: shard_def)

lemma shard_entries_mus [simp]: "shard_entries (m\<lparr>mus := x\<rparr>) j = shard_entries m j"
  by (simp add: shard_entries_def shard_def)

lemma shard_entries_set_same:
  "has_store m i \<Longrightarrow> shard_entries (set_entries m i es) i = es"
  by (auto simp: has_store_def shard_entries_def shard_def index_def maps_set_entries_nth)

lemma set_entries_same: "has_store m i \<Longrightarrow> set_entries m i (shard_entries m i) = m"
proof -
  assume h: "has_store m i"
  then obtain st where st: "maps m ! nat i = Some st" by (auto simp: has_store_def)
  with h have "shard_entries m i = entries st"
    by (simp add: has_store_def shard_entries_def shard_def index_def)
  then have "map_option (\<lambda>st. st\<lparr>entries := shard_entries m i\<rparr>) (maps m ! nat i) = maps m ! nat i"
    using st by simp
  then show ?thesis by (simp add: set_entries_def)
qed

lemma shard_run: "has_store m i \<Longrightarrow> \<exists>st. shard m i = Some st \<and> entries st = shard_entries m i \<and> maps m ! nat i = Some st"
  by (auto simp: has_store_def shard_entries_def shard_def index_def)

lemma rhh_Get_lookup: "rhh_Get st key = spec_lookup (map_of (entries st)) key"
  by (simp add: rhh_Get_def spec_lookup_def)

lemma shard_Set_run:
  assumes "has_store m i"
  shows "shard_Set m i key v = Some (spec_lookup (map_of (shard_entries m i)) key,
     set_entries m i (AList.update key v (shard_entries m i)))"
proof -
  from shard_run [OF assms] obtain st where st: "shard m i = Some st"
    "entries st = shard_entries m i" "maps m ! nat i = Some st" by blast
  have "store (maps m) i (Some (st\<lparr>entries := AList.update key v (entries st)\<rparr>))
      = Some ((maps m)[nat i := Some (st\<lparr>entries := AList.update key v (entries st)\<rparr>)])"
    using assms by (simp add: store_def has_store_def)
  then show ?thesis using st
    by (simp add: shard_Set_def shard_update_def rhh_Set_def set_entries_def rhh_Get_lookup)
qed

lemma shard_Delete_run:
  assumes "has_store m i"
  shows "shard_Delete m i key = Some (spec_lookup (map_of (shard_entries m i)) key,
     set_entries m i (AList.delete key (shard_entries m i)))"
proof -
  from shard_run [OF assms] obtain st where st: "shard m i = Some st"
    "entries st = shard_entries m i" "maps m ! nat i = Some st" by blast
  have "store (maps m) i (Some (st\<lparr>entries := AList.delete key (entries st)\<rparr>))
      = Some ((maps m)[nat i := Some (st\<lparr>entries := AList.delete key (entries st)\<rparr>)])"
    using assms by (simp add: store_def has_store_def)
  then show ?thesis using st
    by (simp add: shard_Delete_def shard_update_def rhh_Delete_def set_entries_def rhh_Get_lookup)
qed

lemma Map_inv_has_store:
  assumes "init m" "Map_inv e m" "0 \<le> i" "i < shards m"
  shows "has_store m i"
proof -
  have "i < int (length (maps m))" using assms by (simp add: Map_inv_def)
  with Map_inv_store [OF assms] assms(3) show ?thesis by (auto simp: has_store_def)
qed

lemma Lock_inv:
  assumes "init m" "Map_inv e m" "0 \<le> i" "i < shards m"
  shows "Lock m i = Some (m\<lparr>mus := (mus m)[nat i := Locked]\<rparr>)"
  using assms Lock_run [of m "nat (shards m)" i] by (simp add: Map_inv_def)

lemma Unlock_inv:
  assumes "init m" "Map_inv e m" "0 \<le> i" "i < shards m" "mus m' = (mus m)[nat i := Locked]"
  shows "Unlock m' i = Some (m'\<lparr>mus := mus m\<rparr>)"
  using assms Unlock_run [of m' "nat (shards m)" i] by (simp add: Map_inv_def)

lemma RLock_inv:
  assumes "init m" "Map_inv e m" "0 \<le> i" "i < shards m"
  shows "RLock m i = Some (m\<lparr>mus := (mus m)[nat i := RLocked 1]\<rparr>)"
  using assms RLock_run [of m "nat (shards m)" i] by (simp add: Map_inv_def)

lemma RUnlock_inv:
  assumes "init m" "Map_inv e m" "0 \<le> i" "i < shards m" "mus m' = (mus m)[nat i := RLocked 1]"
  shows "RUnlock m' i = Some (m'\<lparr>mus := mus m\<rparr>)"
  using assms RUnlock_run [of m' "nat (shards m)" i] by (simp add: Map_inv_def)

lemma initDo_init: "init m \<Longrightarrow> initDo e m = Some m"
  by (simp add: initDo_def)

lemma mus_restore: "mus m' = mus m \<Longrightarrow> m'\<lparr>mus := mus m\<rparr> = m'"
  by simp

lemma Set_run:
  assumes "init m" "Map_inv e m"
  shows "Set e m key v = Some (spec_lookup (contents e m) key,
     set_entries m (choose_shard e m key) (AList.update key v (shard_entries m (choose_shard e m key))))"
proof -
  let ?i = "choose_shard e m key"
  note ix = Map_inv_index(1,3) [OF assms, of key]
  note hs = Map_inv_has_store [OF assms ix]
  let ?mL = "m\<lparr>mus := (mus m)[nat ?i := Locked]\<rparr>"
  have hsL: "has_store ?mL ?i" using hs by simp
  show ?thesis
    by (simp add: Set_def initDo_init [OF assms(1)] Lock_inv [OF assms ix]
        shard_Set_run [OF hsL] Unlock_inv [OF assms ix] contents_shard_entries [OF assms] mus_restore Let_def spec_lookup_def)
qed

lemma Get_run:
  assumes "init m" "Map_inv e m"
  shows "Get e m key = Some (spec_lookup (contents e m) key, m)"
proof -
  let ?i = "choose_shard e m key"
  note ix = Map_inv_index(1,3) [OF assms, of key]
  note hs = Map_inv_has_store [OF assms ix]
  let ?mL = "m\<lparr>mus := (mus m)[nat ?i := RLocked 1]\<rparr>"
  have hsL: "has_store ?mL ?i" using hs by simp
  from shard_run [OF hs] obtain st where st: "shard m ?i = Some st" "entries st = shard_entries m ?i"
    by auto
  show ?thesis
    by (simp add: Get_def initDo_init [OF assms(1)] RLock_inv [OF assms ix] st rhh_Get_lookup
        RUnlock_inv [OF assms ix] contents_shard_entries [OF assms] Let_def spec_lookup_def)
qed

lemma Delete_run:
  assumes "init m" "Map_inv e m"
  shows "Delete e m key = Some (spec_lookup (contents e m) key,
     set_entries m (choose_shard e m key) (AList.delete key (shard_entries m (choose_shard e m key))))"
proof -
  let ?i = "choose_shard e m key"
  note ix = Map_inv_index(1,3) [OF assms, of key]
  note hs = Map_inv_has_store [OF assms ix]
  let ?mL = "m\<lparr>mus := (mus m)[nat ?i := Locked]\<rparr>"
  have hsL: "has_store ?mL ?i" using hs by simp
  show ?thesis
    by (simp add: Delete_def initDo_init [OF assms(1)] Lock_inv [OF assms ix]
        shard_Delete_run [OF hsL] Unlock_inv [OF assms ix] contents_shard_entries [OF assms] mus_restore Let_def spec_lookup_def)
qed


lemma delete_absent: "map_of al k = None \<Longrightarrow> AList.delete k al = al"
  by (induct al) (auto split: if_splits)

lemma revert_Set_absent:
  "map_of al k = None \<Longrightarrow> AList.delete k (AList.update k v al) = al"
  by (simp add: delete_update_same delete_absent)

lemma revert_Delete:
  "distinct (map fst al) \<Longrightarrow> map_of al k = Some p \<Longrightarrow>
   map_of (AList.update k p (AList.delete k al)) = map_of al"
  by (auto simp: update_conv' delete_conv')

lemma SetAccept_run:
  assumes "init m" "Map_inv e m"
  shows "SetAccept e m key v accept =
     Some (if accepted accept (spec_lookup (contents e m) key)
       then (spec_lookup (contents e m) key,
         set_entries m (choose_shard e m key) (AList.update key v (shard_entries m (choose_shard e m key))))
       else ((nil, False), m))"
proof -
  let ?i = "choose_shard e m key"
  let ?es = "shard_entries m ?i"
  note ix = Map_inv_index(1,3) [OF assms, of key]
  note hs = Map_inv_has_store [OF assms ix]
  let ?mL = "m\<lparr>mus := (mus m)[nat ?i := Locked]\<rparr>"
  have hsL: "has_store ?mL ?i" using hs by simp
  let ?m1 = "set_entries ?mL ?i (AList.update key v ?es)"
  have hs1: "has_store ?m1 ?i" using hs by simp
  have es1: "shard_entries ?m1 ?i = AList.update key v ?es"
    using shard_entries_set_same [OF hsL] by simp
  have c: "contents e m key = map_of ?es key" by (rule contents_shard_entries [OF assms])
  have same: "set_entries ?mL ?i ?es = ?mL"
    using set_entries_same [OF hsL] by (simp del: set_entries_mus)
  have s1: "shard_Set ?mL ?i key v = Some (spec_lookup (contents e m) key, ?m1)"
    using shard_Set_run [OF hsL, of key v] by (simp add: spec_lookup_def c)
  have undo_absent: "shard_Delete ?m1 ?i key = Some (spec_lookup (map_of (AList.update key v ?es)) key, ?mL)"
    if "contents e m key = None"
    using shard_Delete_run [OF hs1, of key] that
    by (simp add: es1 revert_Set_absent c same del: set_entries_mus)
  have undo_present: "shard_Set ?m1 ?i key p = Some (spec_lookup (map_of (AList.update key v ?es)) key, ?mL)"
    if "contents e m key = Some p" for p
    using shard_Set_run [OF hs1, of key p] that
    by (simp add: es1 update_triv c same del: set_entries_mus)
  have l: "Lock m ?i = Some ?mL" by (rule Lock_inv [OF assms ix])
  have uL: "Unlock ?mL ?i = Some m"
    using Unlock_inv [OF assms ix, of ?mL] by simp
  have u1: "Unlock ?m1 ?i = Some (set_entries m ?i (AList.update key v ?es))"
    using Unlock_inv [OF assms ix, of ?m1] by (simp add: mus_restore)
  show ?thesis
  proof (cases "contents e m key")
    case None
    then show ?thesis
      by (cases accept)
         (simp_all add: SetAccept_def initDo_init [OF assms(1)] l Let_def s1
          undo_absent uL u1 spec_lookup_def accepted_def del: set_entries_mus)
  next
    case (Some p)
    then show ?thesis
      by (cases accept)
         (simp_all add: SetAccept_def initDo_init [OF assms(1)] l Let_def s1
          undo_present uL u1 spec_lookup_def accepted_def del: set_entries_mus)
  qed
qed

lemma DeleteAccept_run:
  assumes "init m" "Map_inv e m"
  shows "\<exists>es'. DeleteAccept e m key accept =
     Some (if accepted accept (spec_lookup (contents e m) key)
       then (spec_lookup (contents e m) key,
         set_entries m (choose_shard e m key) (AList.delete key (shard_entries m (choose_shard e m key))))
       else ((nil, False), set_entries m (choose_shard e m key) es')) \<and>
     distinct (map fst es') \<and> map_of es' = map_of (shard_entries m (choose_shard e m key))"
proof -
  let ?i = "choose_shard e m key"
  let ?es = "shard_entries m ?i"
  note ix = Map_inv_index(1,3) [OF assms, of key]
  note hs = Map_inv_has_store [OF assms ix]
  from Map_inv_store [OF assms ix] have d: "distinct (map fst ?es)" by auto
  let ?mL = "m\<lparr>mus := (mus m)[nat ?i := Locked]\<rparr>"
  have hsL: "has_store ?mL ?i" using hs by simp
  let ?m1 = "set_entries ?mL ?i (AList.delete key ?es)"
  have hs1: "has_store ?m1 ?i" using hs by simp
  have es1: "shard_entries ?m1 ?i = AList.delete key ?es"
    using shard_entries_set_same [OF hsL] by simp
  have c: "contents e m key = map_of ?es key" by (rule contents_shard_entries [OF assms])
  have s1: "shard_Delete ?mL ?i key = Some (spec_lookup (contents e m) key, ?m1)"
    using shard_Delete_run [OF hsL, of key] by (simp add: spec_lookup_def c)
  let ?m2 = "\<lambda>p. set_entries ?mL ?i (AList.update key p (AList.delete key ?es))"
  have undo: "shard_Set ?m1 ?i key p = Some (spec_lookup (map_of (AList.delete key ?es)) key, ?m2 p)" for p
    using shard_Set_run [OF hs1, of key p] by (simp add: es1 del: set_entries_mus)
  have l: "Lock m ?i = Some ?mL" by (rule Lock_inv [OF assms ix])
  have u1: "Unlock ?m1 ?i = Some (set_entries m ?i (AList.delete key ?es))"
    using Unlock_inv [OF assms ix, of ?m1] by (simp add: mus_restore)
  have u2: "Unlock (?m2 p) ?i = Some (set_entries m ?i (AList.update key p (AList.delete key ?es)))" for p
    using Unlock_inv [OF assms ix, of "?m2 p"] by (simp add: mus_restore)
  have same: "set_entries m ?i ?es = m" by (rule set_entries_same [OF hs])
  show ?thesis
  proof (cases "contents e m key")
    case None
    then have "DeleteAccept e m key accept =
      Some (if accepted accept (spec_lookup (contents e m) key)
       then (spec_lookup (contents e m) key, set_entries m ?i (AList.delete key ?es))
       else ((nil, False), set_entries m ?i (AList.delete key ?es)))"
      by (cases accept)
         (simp_all add: DeleteAccept_def initDo_init [OF assms(1)] l Let_def s1
          u1 spec_lookup_def accepted_def del: set_entries_mus)
    moreover have "AList.delete key ?es = ?es" using None c by (simp add: delete_absent)
    ultimately show ?thesis using d by (intro exI [of _ ?es]) simp
  next
    case (Some p)
    then have "DeleteAccept e m key accept =
      Some (if accepted accept (spec_lookup (contents e m) key)
       then (spec_lookup (contents e m) key, set_entries m ?i (AList.delete key ?es))
       else ((nil, False), set_entries m ?i (AList.update key p (AList.delete key ?es))))"
      by (cases accept)
         (simp_all add: DeleteAccept_def initDo_init [OF assms(1)] l Let_def s1 undo
          u1 u2 spec_lookup_def accepted_def del: set_entries_mus)
    moreover have "distinct (map fst (AList.update key p (AList.delete key ?es)))"
      using d by (simp add: distinct_update distinct_delete)
    moreover have "map_of (AList.update key p (AList.delete key ?es)) = map_of ?es"
      using d Some c by (simp add: revert_Delete)
    ultimately show ?thesis by (intro exI [of _ "AList.update key p (AList.delete key ?es)"]) simp
  qed
qed


lemma Clear_loop_run:
  assumes "mus m = replicate (nat (shards m)) Unlocked" "length (maps m) = nat (shards m)"
    "0 \<le> i" "i \<le> shards m" "shards m \<noteq> 0"
  shows "Clear_loop m i = Some (m\<lparr>maps := take (nat i) (maps m) @
       replicate (nat (shards m) - nat i) (Some (rhh_New (wrap64 (cap m sdiv shards m))))\<rparr>)"
  using assms
proof (induction m i rule: Clear_loop.induct)
  case (1 m i)
  let ?new = "Some (rhh_New (wrap64 (cap m sdiv shards m))) :: 'a rhh option"
  show ?case
  proof (cases "i < shards m")
    case False
    with "1.prems" have "i = shards m" by simp
    then show ?thesis using "1.prems" by (subst Clear_loop.simps) simp
  next
    case True
    let ?mL = "m\<lparr>mus := (mus m)[nat i := Locked]\<rparr>"
    let ?m2 = "?mL\<lparr>maps := (maps m)[nat i := ?new]\<rparr>"
    let ?m3 = "m\<lparr>maps := (maps m)[nat i := ?new]\<rparr>"
    have ni: "nat i < nat (shards m)" using True "1.prems" by simp
    have l: "Lock m i = Some ?mL"
      using Lock_run [OF "1.prems"(1,3) ni] "1.prems"(1) by simp
    have d: "go_div (cap ?mL) (shards ?mL) = Some (wrap64 (cap m sdiv shards m))"
      using "1.prems" by (simp add: go_div_def)
    have d': "go_div (cap m) (shards m) = Some (wrap64 (cap m sdiv shards m))"
      using "1.prems" by (simp add: go_div_def)
    have su: "shard_update ?mL i (rhh_New (wrap64 (cap m sdiv shards m))) = Some ?m2"
      using True "1.prems" by (simp add: shard_update_def store_def)
    have u: "Unlock ?m2 i = Some ?m3"
      using Unlock_run [of ?m2 "nat (shards m)" i] "1.prems" ni by simp
    have IH: "Clear_loop ?m3 (i + 1) = Some (m\<lparr>maps := take (nat (i + 1)) ((maps m)[nat i := ?new]) @
       replicate (nat (shards m) - nat (i + 1)) ?new\<rparr>)"
      using "1.IH" [OF True l d su u] True "1.prems" by simp
    have step: "Clear_loop m i = Clear_loop ?m3 (i + 1)"
      using True by (subst Clear_loop.simps) (simp add: l d' su u)
    have t: "take (nat (i + 1)) ((maps m)[nat i := ?new]) = take (nat i) (maps m) @ [?new]"
      using ni "1.prems" by (simp add: nat_add_distrib take_Suc_conv_app_nth)
    have "nat (shards m) - nat i = Suc (nat (shards m) - nat (i + 1))"
      using ni "1.prems" by simp
    then have r: "[?new] @ replicate (nat (shards m) - nat (i + 1)) ?new
        = replicate (nat (shards m) - nat i) ?new"
      by simp
    show ?thesis unfolding step IH t using r by simp
  qed
qed


lemma entries_from_step:
  assumes "0 \<le> i" "nat i < length (maps m)" "maps m ! nat i = Some st"
  shows "entries_from m i = entries st @ entries_from m (i + 1)"
proof -
  have "drop (nat i) (maps m) = maps m ! nat i # drop (nat (i + 1)) (maps m)"
    using assms(1,2) by (simp add: nat_add_distrib Cons_nth_drop_Suc)
  then show ?thesis using assms(3) by (simp add: entries_from_def)
qed

lemma entries_from_end: "int (length (maps m)) \<le> i \<Longrightarrow> entries_from m i = []"
  by (simp add: entries_from_def)

lemma Len_loop_run:
  assumes "mus m = replicate (nat (shards m)) Unlocked" "length (maps m) = nat (shards m)"
    "\<forall>j<length (maps m). maps m ! j \<noteq> None"
    "0 \<le> i" "i \<le> shards m" "0 \<le> acc" "acc + int (length (entries_from m i)) < 2 ^ 63"
  shows "Len_loop m i acc = Some (acc + int (length (entries_from m i)), m)"
  using assms
proof (induction m i acc rule: Len_loop.induct)
  case (1 m i acc)
  show ?case
  proof (cases "i < shards m")
    case False
    with "1.prems" have "int (length (maps m)) \<le> i" by simp
    then have "entries_from m i = []" by (rule entries_from_end)
    with False show ?thesis by (subst Len_loop.simps) simp
  next
    case True
    let ?mL = "m\<lparr>mus := (mus m)[nat i := Locked]\<rparr>"
    have ni: "nat i < nat (shards m)" using True "1.prems" by simp
    then obtain st where st: "maps m ! nat i = Some st" using "1.prems"(2,3) by fastforce
    have l: "Lock m i = Some ?mL"
      using Lock_run [OF "1.prems"(1,4) ni] "1.prems"(1) by simp
    have sh: "shard ?mL i = Some st" and sh': "shard m i = Some st"
      using st ni "1.prems" by (simp_all add: shard_def index_def)
    have u: "Unlock ?mL i = Some m"
      using Unlock_run [of ?mL "nat (shards m)" i] "1.prems" ni by simp
    have ef: "entries_from m i = entries st @ entries_from m (i + 1)"
      using entries_from_step [OF "1.prems"(4) _ st] ni "1.prems"(2) by simp
    have w: "wrap64 (acc + rhh_Len st) = acc + int (length (entries st))"
      using "1.prems"(6,7) ef by (simp add: rhh_Len_def wrap64_id)
    have step: "Len_loop m i acc = Len_loop m (i + 1) (acc + int (length (entries st)))"
      using True by (subst Len_loop.simps) (simp add: l sh' u w)
    have "Len_loop m (i + 1) (acc + int (length (entries st)))
        = Some (acc + int (length (entries st)) + int (length (entries_from m (i + 1))), m)"
      using "1.IH" [OF True l sh u] True "1.prems" ef w by simp
    then show ?thesis unfolding step using ef by simp
  qed
qed

lemma visit_Range_visit:
  "visit_entries es (Range_visit iter) (d, s) = (d \<or> stops es iter s, visit_entries es iter s)"
  by (induction es arbitrary: d s) (auto simp: Range_visit_def split: prod.splits bool.splits)

lemma visit_entries_append:
  "visit_entries (xs @ ys) iter s =
     (if stops xs iter s then visit_entries xs iter s else visit_entries ys iter (visit_entries xs iter s))"
  by (induction xs arbitrary: s) (auto split: prod.splits bool.splits)

lemma Range_loop_run:
  assumes "mus m = replicate (nat (shards m)) Unlocked" "length (maps m) = nat (shards m)"
    "\<forall>j<length (maps m). maps m ! j \<noteq> None"
    "0 \<le> i" "i \<le> shards m" "\<not> fst ds"
  shows "Range_loop m i iter ds = Some (visit_entries (entries_from m i) iter (snd ds), m)"
  using assms
proof (induction m i iter ds rule: Range_loop.induct)
  case (1 m i iter ds)
  obtain s where ds: "ds = (False, s)" using "1.prems"(6) by (cases ds) auto
  show ?case
  proof (cases "i < shards m")
    case False
    with "1.prems" have "int (length (maps m)) \<le> i" by simp
    then have "entries_from m i = []" by (rule entries_from_end)
    with False show ?thesis by (subst Range_loop.simps) simp
  next
    case True
    let ?mL = "m\<lparr>mus := (mus m)[nat i := RLocked (Suc 0)]\<rparr>"
    have ni: "nat i < nat (shards m)" using True "1.prems" by simp
    then obtain st where st: "maps m ! nat i = Some st" using "1.prems"(2,3) by fastforce
    have l: "RLock m i = Some ?mL"
      using RLock_run [OF "1.prems"(1,4) ni] "1.prems"(1) by simp
    have sh: "shard ?mL i = Some st" and sh': "shard m i = Some st"
      using st ni "1.prems" by (simp_all add: shard_def index_def)
    have u: "RUnlock ?mL i = Some m"
      using RUnlock_run [of ?mL "nat (shards m)" i] "1.prems" ni by simp
    have ef: "entries_from m i = entries st @ entries_from m (i + 1)"
      using entries_from_step [OF "1.prems"(4) _ st] ni "1.prems"(2) by simp
    let ?ds' = "rhh_Range st (Range_visit iter) ds"
    have r: "?ds' = (stops (entries st) iter s, visit_entries (entries st) iter s)"
      and r': "rhh_Range st (Range_visit iter) (False, s) = (stops (entries st) iter s, visit_entries (entries st) iter s)"
      by (simp_all add: rhh_Range_def visit_Range_visit ds)
    show ?thesis
    proof (cases "stops (entries st) iter s")
      case True
      have "Range_loop m i iter ds = Some (visit_entries (entries st) iter s, m)"
        using \<open>i < shards m\<close> True by (subst Range_loop.simps) (simp add: l sh' u r)
      then show ?thesis using True by (simp add: ef visit_entries_append ds)
    next
      case False
      have step: "Range_loop m i iter ds = Range_loop m (i + 1) iter ?ds'"
        using \<open>i < shards m\<close> False by (subst Range_loop.simps) (simp add: l sh' u r)
      have "Range_loop m (i + 1) iter ?ds'
          = Some (visit_entries (entries_from m (i + 1)) iter (snd ?ds'), m)"
        using "1.IH" [OF \<open>i < shards m\<close> l sh refl u] False r \<open>i < shards m\<close> "1.prems" by simp
      then show ?thesis unfolding step using False by (simp add: ef visit_entries_append ds r')
    qed
  qed
qed


lemma distinct_concat_routed:
  assumes "\<And>j. j < length ess \<Longrightarrow>
     distinct (map fst (ess ! j)) \<and> (\<forall>kv\<in>set (ess ! j). f (fst kv) = int (off + j))"
  shows "distinct (map fst (concat ess))"
  using assms
proof (induction ess arbitrary: off)
  case Nil
  then show ?case by simp
next
  case (Cons es rest)
  have hd: "distinct (map fst es)" "\<forall>kv\<in>set es. f (fst kv) = int off"
    using Cons.prems [of 0] by simp_all
  have tl: "distinct (map fst (rest ! j)) \<and> (\<forall>kv\<in>set (rest ! j). f (fst kv) = int (Suc off + j))"
    if "j < length rest" for j
    using Cons.prems [of "Suc j"] that by simp
  have IH: "distinct (map fst (concat rest))" by (rule Cons.IH [of "Suc off"]) (rule tl)
  have "fst kv \<noteq> fst kv'" if "kv \<in> set es" "kv' \<in> set (concat rest)" for kv kv'
  proof -
    from that(2) obtain ys where "ys \<in> set rest" "kv' \<in> set ys" by auto
    then obtain j where j: "j < length rest" "kv' \<in> set (rest ! j)"
      by (metis in_set_conv_nth)
    with tl have "f (fst kv') = int (Suc off + j)" by blast
    moreover have "f (fst kv) = int off" using hd(2) that(1) by blast
    ultimately show ?thesis by auto
  qed
  then have "fst ` set es \<inter> fst ` set (concat rest) = {}" by blast
  with hd(1) IH show ?case by simp
qed

lemma entries_from_0_nth:
  assumes "init m" "Map_inv e m" "j < length (maps m)"
  shows "map (\<lambda>p. case p of None \<Rightarrow> [] | Some st \<Rightarrow> entries st) (maps m) ! j = shard_entries m (int j)"
    "distinct (map fst (shard_entries m (int j)))"
    "\<forall>kv\<in>set (shard_entries m (int j)). choose_shard e m (fst kv) = int (0 + j)"
proof -
  have "int j < shards m" using assms by (simp add: Map_inv_def)
  from Map_inv_store [OF assms(1,2) _ this] obtain st where
    st: "maps m ! j = Some st" "entries st = shard_entries m (int j)" "distinct (map fst (entries st))"
    "list_all (\<lambda>kv. choose_shard e m (fst kv) = int j) (entries st)"
    by auto
  show "map (\<lambda>p. case p of None \<Rightarrow> [] | Some st \<Rightarrow> entries st) (maps m) ! j = shard_entries m (int j)"
    using st assms(3) by simp
  show "distinct (map fst (shard_entries m (int j)))" using st by simp
  show "\<forall>kv\<in>set (shard_entries m (int j)). choose_shard e m (fst kv) = int (0 + j)"
    using st by (simp add: list_all_iff)
qed

lemma Map_inv_entries:
  assumes "init m" "Map_inv e m"
  shows "distinct (map fst (entries_from m 0))"
    and "set (entries_from m 0) = Map.graph (contents e m)"
    and "map_of (entries_from m 0) = contents e m"
    and "length (entries_from m 0) = card (dom (contents e m))"
proof -
  let ?ess = "map (\<lambda>p. case p of None \<Rightarrow> [] | Some st \<Rightarrow> entries st) (maps m)"
  have ef: "entries_from m 0 = concat ?ess" by (simp add: entries_from_def)
  note nth = entries_from_0_nth [OF assms]
  show d: "distinct (map fst (entries_from m 0))"
    unfolding ef
    by (rule distinct_concat_routed [where f = "choose_shard e m" and off = 0])
       (use nth in simp)
  have mem: "(k, v) \<in> set (entries_from m 0) \<longleftrightarrow> contents e m k = Some v" for k v
  proof
    assume "(k, v) \<in> set (entries_from m 0)"
    then obtain ys where "ys \<in> set ?ess" "(k, v) \<in> set ys"
      unfolding ef set_concat by blast
    then obtain j where j: "j < length (maps m)" "(k, v) \<in> set (?ess ! j)"
      by (metis in_set_conv_nth length_map)
    from j(2) have in_j: "(k, v) \<in> set (shard_entries m (int j))"
      unfolding nth(1) [OF j(1)] .
    with nth(3) [OF j(1)] have "choose_shard e m k = int j" by auto
    with in_j nth(2) [OF j(1)] show "contents e m k = Some v"
      by (simp add: contents_shard_entries [OF assms])
  next
    assume c: "contents e m k = Some v"
    let ?j = "nat (choose_shard e m k)"
    note ix = Map_inv_index [OF assms, of k]
    have jl: "?j < length (maps m)" using ix assms by (simp add: Map_inv_def)
    have "(k, v) \<in> set (shard_entries m (choose_shard e m k))"
      using c by (simp add: contents_shard_entries [OF assms] map_of_SomeD)
    then have "(k, v) \<in> set (?ess ! ?j)" unfolding nth(1) [OF jl] using ix(1) by simp
    moreover have "?ess ! ?j \<in> set ?ess" using jl by (intro nth_mem) simp
    ultimately show "(k, v) \<in> set (entries_from m 0)"
      unfolding ef set_concat by blast
  qed
  then show g: "set (entries_from m 0) = Map.graph (contents e m)"
    by (auto simp: Map.graph_def)
  show mo: "map_of (entries_from m 0) = contents e m"
  proof (rule ext)
    fix k
    show "map_of (entries_from m 0) k = contents e m k"
    proof (cases "contents e m k")
      case None
      then have "k \<notin> fst ` set (entries_from m 0)" using mem by force
      then show ?thesis using None by (simp add: map_of_eq_None_iff)
    next
      case (Some v)
      then have "(k, v) \<in> set (entries_from m 0)" using mem by simp
      with d show ?thesis using Some by simp
    qed
  qed
  have "card (dom (contents e m)) = card (set (map fst (entries_from m 0)))"
    unfolding mo [symmetric] by (simp add: dom_map_of_conv_image_fst)
  also have "\<dots> = length (entries_from m 0)" using distinct_card [OF d] by simp
  finally show "length (entries_from m 0) = card (dom (contents e m))" by simp
qed

section \<open>Every call refines the logical map\<close>

lemma all_empty_inv:
  assumes "k \<le> 62" "shards m = 2 ^ k" "mus m = replicate (2 ^ k) Unlocked"
    "maps m = replicate (2 ^ k) (Some (rhh_New c))" "init m"
  shows "Map_inv e m" "contents e m = Map.empty" "entries_from m 0 = []"
proof -
  have nn: "nat (2 ^ k) = 2 ^ k" by (simp add: nat_power_eq)
  show "Map_inv e m"
    using assms by (auto simp: Map_inv_def nn store_ok_def rhh_New_def)
  show "contents e m = Map.empty"
  proof (rule ext)
    fix key
    show "contents e m key = None"
      using assms(4) by (auto simp: contents_def shard_def index_def rhh_New_def split: option.splits)
  qed
  show "entries_from m 0 = []"
    using assms(4) by (simp add: entries_from_def rhh_New_def)
qed

lemma initDo_inv:
  assumes "env_ok e" "Map_inv e m"
  shows "\<exists>m'. initDo e m = Some m' \<and> init m' \<and> Map_inv e m' \<and> contents e m' = contents e m \<and>
     cap m' = cap m \<and> (init m \<longrightarrow> m' = m)"
proof (cases "init m")
  case True
  then show ?thesis using assms(2) by (simp add: initDo_init)
next
  case False
  from initDo_fresh [OF assms(1) False] obtain k where k: "k \<le> 62"
    "initDo e m = Some (m\<lparr>init := True, shards := 2 ^ k, mus := replicate (2 ^ k) Unlocked,
       maps := replicate (2 ^ k) (Some (rhh_New (wrap64 (cap m sdiv 2 ^ k))))\<rparr>)"
    by blast
  let ?m' = "m\<lparr>init := True, shards := 2 ^ k, mus := replicate (2 ^ k) Unlocked,
       maps := replicate (2 ^ k) (Some (rhh_New (wrap64 (cap m sdiv 2 ^ k))))\<rparr>"
  have "Map_inv e ?m'" "contents e ?m' = Map.empty"
    by (rule all_empty_inv [OF k(1), where c = "wrap64 (cap m sdiv 2 ^ k)"]; simp)+
  moreover have "contents e m = Map.empty" using False by (auto simp: contents_def)
  ultimately show ?thesis using k(2) False by simp
qed

lemma list_all_update:
  "list_all P al \<Longrightarrow> P (k, v) \<Longrightarrow> list_all P (AList.update k v al)"
  by (induct al) auto

lemma list_all_delete: "list_all P al \<Longrightarrow> list_all P (AList.delete k al)"
  by (induct al) auto

lemma shard_step:
  assumes "init m" "Map_inv e m"
    and "distinct (map fst es')"
    and "list_all (\<lambda>kv. choose_shard e m (fst kv) = choose_shard e m key) es'"
    and "map_of es' = (map_of (shard_entries m (choose_shard e m key)))(key := x)"
  shows "Map_inv e (set_entries m (choose_shard e m key) es')"
    and "contents e (set_entries m (choose_shard e m key) es') = (contents e m)(key := x)"
proof -
  note ix = Map_inv_index(1,3) [OF assms(1,2), of key]
  show "Map_inv e (set_entries m (choose_shard e m key) es')"
    by (rule Map_inv_set_entries [OF assms(1,2) ix assms(3,4)])
  show "contents e (set_entries m (choose_shard e m key) es') = (contents e m)(key := x)"
  proof (rule ext)
    fix k
    show "contents e (set_entries m (choose_shard e m key) es') k = ((contents e m)(key := x)) k"
    proof (cases "choose_shard e m k = choose_shard e m key")
      case True
      then show ?thesis
        using contents_set_entries [OF assms(1,2) ix assms(3,4), of k]
          contents_shard_entries [OF assms(1,2), of k] assms(5)
        by simp
    next
      case False
      then have "k \<noteq> key" by auto
      with False show ?thesis
        using contents_set_entries [OF assms(1,2) ix assms(3,4), of k] by simp
    qed
  qed
qed

lemma shard_facts:
  assumes "init m" "Map_inv e m"
  shows "distinct (map fst (shard_entries m (choose_shard e m key)))"
    and "list_all (\<lambda>kv. choose_shard e m (fst kv) = choose_shard e m key) (shard_entries m (choose_shard e m key))"
  using Map_inv_store [OF assms Map_inv_index(1,3) [OF assms, of key]] by auto

lemma Set_refines:
  assumes "init m" "Map_inv e m"
  shows "\<exists>m'. Set e m key v = Some (spec_lookup (contents e m) key, m') \<and> init m' \<and> Map_inv e m' \<and>
     shards m' = shards m \<and> cap m' = cap m \<and> contents e m' = (contents e m)(key \<mapsto> v)"
proof -
  note sf = shard_facts [OF assms, of key]
  let ?es' = "AList.update key v (shard_entries m (choose_shard e m key))"
  have "Map_inv e (set_entries m (choose_shard e m key) ?es')"
    "contents e (set_entries m (choose_shard e m key) ?es') = (contents e m)(key \<mapsto> v)"
    by (rule shard_step [OF assms]; simp add: sf distinct_update list_all_update update_conv')+
  then show ?thesis using assms(1) by (simp add: Set_run [OF assms])
qed

lemma Delete_refines:
  assumes "init m" "Map_inv e m"
  shows "\<exists>m'. Delete e m key = Some (spec_lookup (contents e m) key, m') \<and> init m' \<and> Map_inv e m' \<and>
     shards m' = shards m \<and> cap m' = cap m \<and> contents e m' = (contents e m)(key := None)"
proof -
  note sf = shard_facts [OF assms, of key]
  let ?es' = "AList.delete key (shard_entries m (choose_shard e m key))"
  have "Map_inv e (set_entries m (choose_shard e m key) ?es')"
    "contents e (set_entries m (choose_shard e m key) ?es') = (contents e m)(key := None)"
    by (rule shard_step [OF assms]; simp add: sf distinct_delete list_all_delete delete_conv')+
  then show ?thesis using assms(1) by (simp add: Delete_run [OF assms])
qed

lemma SetAccept_refines:
  assumes "init m" "Map_inv e m"
  shows "\<exists>m'. SetAccept e m key v accept =
       Some (if accepted accept (spec_lookup (contents e m) key)
             then spec_lookup (contents e m) key else (nil, False), m') \<and>
     init m' \<and> Map_inv e m' \<and> shards m' = shards m \<and> cap m' = cap m \<and>
     contents e m' = (if accepted accept (spec_lookup (contents e m) key)
        then (contents e m)(key \<mapsto> v) else contents e m)"
proof -
  note sf = shard_facts [OF assms, of key]
  let ?es' = "AList.update key v (shard_entries m (choose_shard e m key))"
  have "Map_inv e (set_entries m (choose_shard e m key) ?es')"
    "contents e (set_entries m (choose_shard e m key) ?es') = (contents e m)(key \<mapsto> v)"
    by (rule shard_step [OF assms]; simp add: sf distinct_update list_all_update update_conv')+
  then show ?thesis using assms by (simp add: SetAccept_run [OF assms])
qed

lemma DeleteAccept_refines:
  assumes "init m" "Map_inv e m"
  shows "\<exists>m'. DeleteAccept e m key accept =
       Some (if accepted accept (spec_lookup (contents e m) key)
             then spec_lookup (contents e m) key else (nil, False), m') \<and>
     init m' \<and> Map_inv e m' \<and> shards m' = shards m \<and> cap m' = cap m \<and>
     contents e m' = (if accepted accept (spec_lookup (contents e m) key)
        then (contents e m)(key := None) else contents e m)"
proof -
  note sf = shard_facts [OF assms, of key]
  let ?i = "choose_shard e m key"
  let ?es = "shard_entries m ?i"
  from DeleteAccept_run [OF assms, of key accept] obtain es' where
    run: "DeleteAccept e m key accept =
       Some (if accepted accept (spec_lookup (contents e m) key)
         then (spec_lookup (contents e m) key, set_entries m ?i (AList.delete key ?es))
         else ((nil, False), set_entries m ?i es'))"
    and es': "distinct (map fst es')" "map_of es' = map_of ?es"
    by blast
  have del: "Map_inv e (set_entries m ?i (AList.delete key ?es))"
    "contents e (set_entries m ?i (AList.delete key ?es)) = (contents e m)(key := None)"
    by (rule shard_step [OF assms]; simp add: sf distinct_delete list_all_delete delete_conv')+
  have routed: "list_all (\<lambda>kv. choose_shard e m (fst kv) = ?i) es'"
  proof -
    have eq: "fst ` set es' = fst ` set ?es"
      using es'(2) by (metis dom_map_of_conv_image_fst)
    have r: "\<forall>kv\<in>set ?es. choose_shard e m (fst kv) = ?i"
      using sf(2) by (simp add: list_all_iff)
    have "choose_shard e m (fst kv) = ?i" if "kv \<in> set es'" for kv
    proof -
      from that have "fst kv \<in> fst ` set ?es" unfolding eq [symmetric] by (rule imageI)
      then obtain kv' where "kv' \<in> set ?es" "fst kv = fst kv'" by blast
      with r show ?thesis by simp
    qed
    then show ?thesis by (simp add: list_all_iff)
  qed
  have "map_of es' = (map_of ?es)(key := map_of ?es key)" using es'(2) by simp
  from shard_step [OF assms es'(1) routed this]
  have rej: "Map_inv e (set_entries m ?i es')" "contents e (set_entries m ?i es') = contents e m"
    by (simp_all add: contents_shard_entries [OF assms, symmetric])
  show ?thesis using assms(1) del rej by (simp add: run)
qed

lemma Map_inv_frame:
  assumes "init m" "Map_inv e m"
  shows "mus m = replicate (nat (shards m)) Unlocked" "length (maps m) = nat (shards m)"
    "\<forall>j<length (maps m). maps m ! j \<noteq> None" "0 < shards m"
proof -
  show "mus m = replicate (nat (shards m)) Unlocked" "length (maps m) = nat (shards m)"
    using assms by (simp_all add: Map_inv_def)
  show "\<forall>j<length (maps m). maps m ! j \<noteq> None"
    using assms by (auto simp: Map_inv_def store_ok_def split: option.splits)
  from Map_inv_pow [OF assms] show "0 < shards m" by auto
qed

lemma Len_loop_total:
  assumes "mus m = replicate (nat (shards m)) Unlocked" "length (maps m) = nat (shards m)"
    "\<forall>j<length (maps m). maps m ! j \<noteq> None" "0 \<le> i"
  shows "\<exists>n. Len_loop m i acc = Some (n, m)"
  using assms
proof (induction m i acc rule: Len_loop.induct)
  case (1 m i acc)
  show ?case
  proof (cases "i < shards m")
    case False
    then show ?thesis by (subst Len_loop.simps) simp
  next
    case True
    let ?mL = "m\<lparr>mus := (mus m)[nat i := Locked]\<rparr>"
    have ni: "nat i < nat (shards m)" using True "1.prems" by simp
    then obtain st where st: "maps m ! nat i = Some st" using "1.prems"(2,3) by fastforce
    have l: "Lock m i = Some ?mL"
      using Lock_run [OF "1.prems"(1,4) ni] "1.prems"(1) by simp
    have sh: "shard ?mL i = Some st" and sh': "shard m i = Some st"
      using st ni "1.prems" by (simp_all add: shard_def index_def)
    have u: "Unlock ?mL i = Some m"
      using Unlock_run [of ?mL "nat (shards m)" i] "1.prems" ni by simp
    have step: "Len_loop m i acc = Len_loop m (i + 1) (wrap64 (acc + rhh_Len st))"
      using True by (subst Len_loop.simps) (simp add: l sh' u)
    show ?thesis unfolding step using "1.IH" [OF True l sh u] "1.prems" by simp
  qed
qed

lemma Len_total:
  assumes "init m" "Map_inv e m"
  shows "\<exists>n. Len e m = Some (n, m)"
  using Len_loop_total [OF Map_inv_frame(1-3) [OF assms], of 0 0]
  by (simp add: Len_def initDo_init [OF assms(1)])

lemma Len_refines:
  assumes "init m" "Map_inv e m" "int (card (dom (contents e m))) < 2 ^ 63"
  shows "Len e m = Some (int (card (dom (contents e m))), m)"
proof -
  note fr = Map_inv_frame [OF assms(1,2)]
  note len = Map_inv_entries(4) [OF assms(1,2)]
  have "Len_loop m 0 0 = Some (0 + int (length (entries_from m 0)), m)"
    using fr(4) assms(3) by (intro Len_loop_run [OF fr(1-3)]) (simp_all add: len)
  then show ?thesis by (simp add: Len_def initDo_init [OF assms(1)] len)
qed

lemma Range_refines:
  assumes "init m" "Map_inv e m"
  shows "Range e m iter s = Some (visit_entries (entries_from m 0) iter s, m)"
proof -
  note fr = Map_inv_frame [OF assms(1,2)]
  have "Range_loop m 0 iter (False, s) = Some (visit_entries (entries_from m 0) iter (snd (False, s)), m)"
    using fr(4) by (intro Range_loop_run [OF fr(1-3)]) simp_all
  then show ?thesis by (simp add: Range_def initDo_init [OF assms(1)])
qed

lemma Clear_refines:
  assumes "init m" "Map_inv e m"
  shows "Clear e m = Some (m\<lparr>maps := replicate (nat (shards m)) (Some (rhh_New (wrap64 (cap m sdiv shards m))))\<rparr>)"
    and "Map_inv e (m\<lparr>maps := replicate (nat (shards m)) (Some (rhh_New (wrap64 (cap m sdiv shards m))))\<rparr>)"
    and "contents e (m\<lparr>maps := replicate (nat (shards m)) (Some (rhh_New (wrap64 (cap m sdiv shards m))))\<rparr>) = Map.empty"
    and "entries_from (m\<lparr>maps := replicate (nat (shards m)) (Some (rhh_New (wrap64 (cap m sdiv shards m))))\<rparr>) 0 = []"
proof -
  note fr = Map_inv_frame [OF assms(1,2)]
  let ?m' = "m\<lparr>maps := replicate (nat (shards m)) (Some (rhh_New (wrap64 (cap m sdiv shards m))))\<rparr>"
  have "Clear_loop m 0 = Some ?m'"
    using Clear_loop_run [OF fr(1,2), of 0] fr(4) by simp
  then show "Clear e m = Some ?m'" by (simp add: Clear_def initDo_init [OF assms(1)])
  from Map_inv_pow [OF assms] obtain k where k: "k \<le> 62" "shards m = 2 ^ k" by blast
  have nn: "nat (2 ^ k) = 2 ^ k" by (simp add: nat_power_eq)
  show "Map_inv e ?m'" "contents e ?m' = Map.empty" "entries_from ?m' 0 = []"
    by (rule all_empty_inv [OF k(1), where c = "wrap64 (cap m sdiv shards m)"];
        simp add: k(2) nn fr(1) [unfolded k(2)] assms(1))+
qed

lemma exec_op_step_init:
  assumes "init m" "Map_inv e m"
  shows "\<exists>r m'. exec_op e m c = Some (r, m') \<and> init m' \<and> Map_inv e m' \<and>
     shards m' = shards m \<and> cap m' = cap m \<and>
     contents e m' = spec_next (contents e m) c \<and>
     ((c = OpLen \<longrightarrow> int (card (dom (contents e m))) < 2 ^ 63) \<longrightarrow> spec_ret (contents e m) c r)"
proof (cases c)
  case (OpSet key v)
  from Set_refines [OF assms(1,2), of key v] obtain m' where
    "Set e m key v = Some (spec_lookup (contents e m) key, m')" "init m'" "Map_inv e m'"
    "shards m' = shards m" "cap m' = cap m"
    "contents e m' = (contents e m)(key \<mapsto> v)"
    by blast
  then show ?thesis by (simp add: OpSet ret_pair_def)
next
  case (OpGet key)
  then show ?thesis using assms(1,2) by (simp add: ret_pair_def Get_run [OF assms(1,2)])
next
  case (OpDelete key)
  from Delete_refines [OF assms(1,2), of key] obtain m' where
    "Delete e m key = Some (spec_lookup (contents e m) key, m')" "init m'" "Map_inv e m'"
    "shards m' = shards m" "cap m' = cap m"
    "contents e m' = (contents e m)(key := None)"
    by blast
  then show ?thesis by (simp add: OpDelete ret_pair_def)
next
  case (OpSetAccept key v accept)
  from SetAccept_refines [OF assms(1,2), of key v accept] obtain m' where
    m': "SetAccept e m key v accept =
       Some (if accepted accept (spec_lookup (contents e m) key)
             then spec_lookup (contents e m) key else (nil, False), m')"
     "init m'" "Map_inv e m'" "shards m' = shards m" "cap m' = cap m"
     "contents e m' = (if accepted accept (spec_lookup (contents e m) key)
        then (contents e m)(key \<mapsto> v) else contents e m)"
    by blast
  have "contents e m' = spec_next (contents e m) c"
    unfolding m'(6) OpSetAccept
    by (auto simp: spec_lookup_def split: option.splits)
  then show ?thesis using m'(1-5) by (simp add: OpSetAccept ret_pair_def)
next
  case (OpDeleteAccept key accept)
  from DeleteAccept_refines [OF assms(1,2), of key accept] obtain m' where
    m': "DeleteAccept e m key accept =
       Some (if accepted accept (spec_lookup (contents e m) key)
             then spec_lookup (contents e m) key else (nil, False), m')"
     "init m'" "Map_inv e m'" "shards m' = shards m" "cap m' = cap m"
     "contents e m' = (if accepted accept (spec_lookup (contents e m) key)
        then (contents e m)(key := None) else contents e m)"
    by blast
  have "contents e m' = spec_next (contents e m) c"
    unfolding m'(6) OpDeleteAccept
    by (auto simp: spec_lookup_def split: option.splits)
  then show ?thesis using m'(1-5) by (simp add: OpDeleteAccept ret_pair_def)
next
  case OpLen
  from Len_total [OF assms] obtain n where n: "Len e m = Some (n, m)" by blast
  have "n = int (card (dom (contents e m)))" if "int (card (dom (contents e m))) < 2 ^ 63"
    using Len_refines [OF assms that] n by simp
  then show ?thesis using assms n by (simp add: OpLen)
next
  case (OpRange iter s)
  have "spec_ret (contents e m) c (RetRange (visit_entries (entries_from m 0) iter s))"
    unfolding OpRange spec_ret.simps
    using Map_inv_entries(1,2) [OF assms(1,2)] by blast
  then show ?thesis using assms(1,2) by (simp add: OpRange Range_refines [OF assms(1,2)])
next
  case OpClear
  then show ?thesis using assms(1) Clear_refines(1-3) [OF assms(1,2)] by simp
qed

lemma exec_op_initDo:
  assumes "initDo e m = Some m0" "init m0"
  shows "exec_op e m c = exec_op e m0 c"
  using assms
  by (cases c)
     (simp_all add: Set_def Get_def Delete_def SetAccept_def DeleteAccept_def Len_def Range_def
        Clear_def initDo_init)

lemma finite_dom_contents:
  assumes "Map_inv e m"
  shows "finite (dom (contents e m))"
proof (cases "init m")
  case True
  from Map_inv_entries(3) [OF True assms] have "contents e m = map_of (entries_from m 0)" by simp
  then show ?thesis by (simp add: finite_dom_map_of)
next
  case False
  then have "contents e m = Map.empty" by (auto simp: contents_def)
  then show ?thesis by simp
qed

lemma card_dom_upd: "finite (dom a) \<Longrightarrow> card (dom (a(k \<mapsto> v))) \<le> Suc (card (dom a))"
  by (simp add: card_insert_le_m1 card_insert_if)

lemma card_dom_del: "finite (dom a) \<Longrightarrow> card (dom (a(k := None))) \<le> Suc (card (dom a))"
  by (simp add: le_SucI card_Diff1_le)

lemma card_dom_spec_next:
  assumes "finite (dom a)"
  shows "card (dom (spec_next a c)) \<le> Suc (card (dom a))"
proof (cases c)
  case (OpSet key v)
  then show ?thesis using card_dom_upd [OF assms] by simp
next
  case (OpDelete key)
  then show ?thesis using card_dom_del [OF assms] by simp
next
  case (OpSetAccept key v accept)
  then show ?thesis using card_dom_upd [OF assms, of key] card_dom_del [OF assms, of key] by simp
next
  case (OpDeleteAccept key accept)
  then show ?thesis using card_dom_upd [OF assms, of key] card_dom_del [OF assms, of key] by simp
qed simp_all

lemma exec_op_step:
  assumes "env_ok e" "Map_inv e m"
  shows "\<exists>m0 r m'. initDo e m = Some m0 \<and> exec_op e m c = Some (r, m') \<and> init m' \<and> Map_inv e m' \<and>
     shards m' = shards m0 \<and> cap m' = cap m \<and>
     contents e m' = spec_next (contents e m) c \<and>
     ((c = OpLen \<longrightarrow> int (card (dom (contents e m))) < 2 ^ 63) \<longrightarrow> spec_ret (contents e m) c r)"
proof -
  from initDo_inv [OF assms(1,2)] obtain m0 where
    m0: "initDo e m = Some m0" "init m0" "Map_inv e m0" "contents e m0 = contents e m" "cap m0 = cap m"
    by blast
  from exec_op_step_init [OF m0(2,3), of c] m0(1,4,5)
  show ?thesis by (simp add: exec_op_initDo [OF m0(1,2)])
qed

lemma exec_ops_refines:
  assumes "env_ok e" "Map_inv e m"
    "OpLen \<in> set cs \<longrightarrow> int (card (dom (contents e m))) + int (length cs) < 2 ^ 63"
  shows "\<exists>rs m'. exec_ops e m cs = Some (rs, m') \<and> Map_inv e m' \<and>
     spec_run (contents e m) cs rs (contents e m')"
  using assms(2,3)
proof (induction cs arbitrary: m)
  case Nil
  then show ?case by simp
next
  case (Cons c cs)
  have b: "c = OpLen \<longrightarrow> int (card (dom (contents e m))) < 2 ^ 63" using Cons.prems(2) by auto
  from exec_op_step [OF assms(1) Cons.prems(1), of c] b obtain r m1 where
    s: "exec_op e m c = Some (r, m1)" "Map_inv e m1"
    "contents e m1 = spec_next (contents e m) c" "spec_ret (contents e m) c r"
    by blast
  have "card (dom (contents e m1)) \<le> Suc (card (dom (contents e m)))"
    unfolding s(3) by (rule card_dom_spec_next [OF finite_dom_contents [OF Cons.prems(1)]])
  then have "OpLen \<in> set cs \<longrightarrow> int (card (dom (contents e m1))) + int (length cs) < 2 ^ 63"
    using Cons.prems(2) by auto
  from Cons.IH [OF s(2) this] obtain rs m' where
    t: "exec_ops e m1 cs = Some (rs, m')" "Map_inv e m'"
    "spec_run (contents e m1) cs rs (contents e m')"
    by blast
  show ?case using s t by simp
qed

lemma Map_inv_New: "Map_inv e (New c)"
  by (simp add: Map_inv_def New_def)

lemma contents_New: "contents e (New c) = Map.empty"
  by (auto simp: contents_def New_def)

section \<open>Maps that are not yet initialised, and reachable maps\<close>

lemma ops_initDo:
  assumes "initDo e m = Some m0" "init m0"
  shows "Set e m key v = Set e m0 key v"
    and "Get e m key = Get e m0 key"
    and "Delete e m key = Delete e m0 key"
    and "SetAccept e m key v accept = SetAccept e m0 key v accept"
    and "DeleteAccept e m key accept = DeleteAccept e m0 key accept"
    and "Len e m = Len e m0"
    and "Range e m iter s = Range e m0 iter s"
    and "Clear e m = Clear e m0"
  using assms
  by (simp_all add: Set_def Get_def Delete_def SetAccept_def DeleteAccept_def Len_def Range_def
        Clear_def initDo_init)

lemma Get_inv:
  assumes "env_ok e" "Map_inv e m"
  shows "\<exists>m0. initDo e m = Some m0 \<and> init m0 \<and> Map_inv e m0 \<and> contents e m0 = contents e m \<and>
     Get e m key = Some (spec_lookup (contents e m) key, m0)"
proof -
  from initDo_inv [OF assms] obtain m0 where
    m0: "initDo e m = Some m0" "init m0" "Map_inv e m0" "contents e m0 = contents e m"
    by blast
  then show ?thesis using Get_run [OF m0(2,3), of key] by (simp add: ops_initDo(2) [OF m0(1,2)])
qed

lemma exec_ops_frame:
  assumes "env_ok e" "Map_inv e m" "exec_ops e m cs = Some (rs, m')" "initDo e m = Some m0"
  shows "Map_inv e m' \<and> cap m' = cap m \<and> contents e m' = foldl spec_next (contents e m) cs \<and>
     (cs = [] \<longrightarrow> m' = m) \<and> (cs \<noteq> [] \<longrightarrow> init m' \<and> shards m' = shards m0)"
  using assms(2-4)
proof (induction cs arbitrary: m rs m0)
  case Nil
  then show ?case by simp
next
  case (Cons c cs)
  from exec_op_step [OF assms(1) Cons.prems(1), of c] Cons.prems(3) obtain r m1 where
    s: "exec_op e m c = Some (r, m1)" "init m1" "Map_inv e m1" "shards m1 = shards m0"
    "cap m1 = cap m" "contents e m1 = spec_next (contents e m) c"
    by auto
  from Cons.prems(2) s(1) obtain rs' where t: "exec_ops e m1 cs = Some (rs', m')"
    by (auto simp: bind_eq_Some_conv)
  from Cons.IH [OF s(3) t initDo_init [OF s(2)]]
  have IH: "Map_inv e m'" "cap m' = cap m1" "contents e m' = foldl spec_next (contents e m1) cs"
    "cs = [] \<longrightarrow> m' = m1" "cs \<noteq> [] \<longrightarrow> init m' \<and> shards m' = shards m1"
    by auto
  show ?case using IH s by (cases "cs = []") auto
qed

lemma reachable_Map_inv:
  fixes m :: "'v Map"
  assumes "env_ok e" "exec_ops e (New c) cs = Some (rs, m)"
  shows "Map_inv e m"
proof -
  from initDo_inv [OF assms(1) Map_inv_New, of c] obtain mi :: "'v Map" where
    "initDo e (New c) = Some mi"
    by blast
  from exec_ops_frame [OF assms(1) Map_inv_New assms(2) this] show ?thesis by simp
qed

lemma initDo_Some:
  assumes "env_ok e" "Map_inv e m" "initDo e m = Some m0"
  shows "init m0" "Map_inv e m0" "contents e m0 = contents e m" "cap m0 = cap m"
  using initDo_inv [OF assms(1,2)] assms(3) by auto

lemma initDo_New:
  assumes "env_ok e"
  shows "\<exists>k\<le>62. NumCPU e * 16 \<le> 2 ^ k \<and> (\<forall>j<k. 2 ^ j < NumCPU e * 16) \<and>
    initDo e (New c) = Some \<lparr>init = True, cap = c, shards = 2 ^ k, mus = replicate (2 ^ k) Unlocked,
       maps = replicate (2 ^ k) (Some (rhh_New (wrap64 (c sdiv 2 ^ k))))\<rparr>"
  using initDo_fresh [OF assms, of "New c"] by (simp add: New_def)

lemma Clear_reached:
  fixes m mi :: "'v Map"
  assumes "env_ok e" "exec_ops e (New c) cs = Some (rs, m)" "initDo e (New c) = Some mi"
  shows "Clear e m = Some mi"
proof -
  from initDo_New [OF assms(1), of c] obtain k where
    k0: "k \<le> 62" "initDo e (New c) = Some (\<lparr>init = True, cap = c, shards = 2 ^ k,
       mus = replicate (2 ^ k) Unlocked,
       maps = replicate (2 ^ k) (Some (rhh_New (wrap64 (c sdiv 2 ^ k))))\<rparr> :: 'v Map)"
    by blast
  have k: "k \<le> 62" "mi = \<lparr>init = True, cap = c, shards = 2 ^ k, mus = replicate (2 ^ k) Unlocked,
       maps = replicate (2 ^ k) (Some (rhh_New (wrap64 (c sdiv 2 ^ k))))\<rparr>"
    using k0(1) k0(2) [unfolded assms(3)] by simp_all
  have nn: "nat (2 ^ k) = 2 ^ k" by (simp add: nat_power_eq)
  note mi = initDo_Some(1,2) [OF assms(1) Map_inv_New assms(3)]
  have cmi: "Clear e mi = Some mi"
    using Clear_refines(1) [OF mi] by (simp add: k(2) nn)
  from exec_ops_frame [OF assms(1) Map_inv_New assms(2,3)]
  have fr: "Map_inv e m" "cap m = c" "cs = [] \<longrightarrow> m = New c" "cs \<noteq> [] \<longrightarrow> init m \<and> shards m = shards mi"
    by (auto simp: New_def)
  show ?thesis
  proof (cases "cs = []")
    case True
    with fr(3) show ?thesis using cmi by (simp add: ops_initDo(8) [OF assms(3) mi(1)])
  next
    case False
    with fr have i: "init m" "shards m = 2 ^ k" by (simp_all add: k(2))
    have mus: "mus m = replicate (2 ^ k) Unlocked"
      using Map_inv_frame(1) [OF i(1) fr(1)] by (simp add: i(2) nn)
    have "m\<lparr>maps := replicate (nat (shards m)) (Some (rhh_New (wrap64 (cap m sdiv shards m))))\<rparr> = mi"
      using i fr(2) mus by (cases m) (simp add: k(2) nn)
    then show ?thesis using Clear_refines(1) [OF i(1) fr(1)] by simp
  qed
qed

lemma Set_inv:
  assumes "env_ok e" "Map_inv e m"
  shows "\<exists>m'. Set e m key v = Some (spec_lookup (contents e m) key, m') \<and> init m' \<and> Map_inv e m' \<and>
     contents e m' = (contents e m)(key \<mapsto> v)"
proof -
  from initDo_inv [OF assms] obtain m0 where
    m0: "initDo e m = Some m0" "init m0" "Map_inv e m0" "contents e m0 = contents e m"
    by blast
  from Set_refines [OF m0(2,3), of key v] show ?thesis
    by (auto simp: ops_initDo(1) [OF m0(1,2)] m0(4))
qed

lemma env0_ok: "env_ok env0"
  by (simp add: env_ok_def env0_def)

lemma hello_map_facts:
  shows "init hello_map" and "Map_inv env0 hello_map"
    and "contents env0 hello_map = [''hello'' \<mapsto> Val ''world'']"
    and "Get env0 hello_map ''hello'' = Some ((Val ''world'', True), hello_map)"
proof -
  from Set_inv [OF env0_ok Map_inv_New, of 0 "''hello''" "Val ''world''"]
  obtain m' :: "string Map" where m': "Set env0 (New 0) ''hello'' (Val ''world'') = Some (spec_lookup (contents env0 (New 0)) ''hello'', m')"
    "init m'" "Map_inv env0 m'" "contents env0 m' = (contents env0 (New 0))(''hello'' \<mapsto> Val ''world'')"
    by blast
  have eq: "hello_map = m'" by (simp add: hello_map_def m'(1))
  show "init hello_map" "Map_inv env0 hello_map" using m' eq by simp_all
  show c: "contents env0 hello_map = [''hello'' \<mapsto> Val ''world'']"
    using m'(4) eq by (simp add: contents_New)
  show "Get env0 hello_map ''hello'' = Some ((Val ''world'', True), hello_map)"
    using Get_run [OF \<open>init hello_map\<close> \<open>Map_inv env0 hello_map\<close>, of "''hello''"]
    by (simp add: c spec_lookup_def)
qed

lemma greetings_map_run:
  "exec_ops env0 (New 0) greeting_calls =
     Some ([RetPair (nil, False), RetPair (nil, False), RetPair (nil, False)], greetings_map)"
  by code_simp

lemma greetings_map_inv: "Map_inv env0 greetings_map"
  by (rule reachable_Map_inv [OF env0_ok greetings_map_run])

lemma traced_step:
  "iter (fst kv) (snd kv) s = (b, s1) \<Longrightarrow> traced iter (fst kv) (snd kv) (s, tr) = (b, (s1, tr @ [kv]))"
  by (simp add: traced_def)

lemma visit_traced_grows:
  "\<exists>s' tr'. visit_entries es (traced iter) (s, tr) = (s', tr @ tr')"
proof (induction es arbitrary: s tr)
  case Nil
  then show ?case by simp
next
  case (Cons kv es)
  obtain b s1 where it: "iter (fst kv) (snd kv) s = (b, s1)" by (cases "iter (fst kv) (snd kv) s")
  have st: "traced iter (fst kv) (snd kv) (s, tr) = (b, (s1, tr @ [kv]))"
    using it by (rule traced_step)
  show ?case
  proof (cases b)
    case True
    from Cons.IH [of s1 "tr @ [kv]"] obtain s' tr' where
      "visit_entries es (traced iter) (s1, tr @ [kv]) = (s', (tr @ [kv]) @ tr')" by blast
    then have "visit_entries (kv # es) (traced iter) (s, tr) = (s', tr @ (kv # tr'))"
      using st True by simp
    then show ?thesis by blast
  next
    case False
    then have "visit_entries (kv # es) (traced iter) (s, tr) = (s1, tr @ [kv])"
      using st by simp
    then show ?thesis by blast
  qed
qed

lemma visit_traced_head:
  "\<exists>s' rest. visit_entries (kv # es) (traced iter) (s0, []) = (s', kv # rest) \<and>
     (\<not> fst (iter (fst kv) (snd kv) s0) \<longrightarrow> rest = [])"
proof -
  obtain b s1 where it: "iter (fst kv) (snd kv) s0 = (b, s1)" by (cases "iter (fst kv) (snd kv) s0")
  have st: "traced iter (fst kv) (snd kv) (s0, []) = (b, (s1, [] @ [kv]))"
    using it by (rule traced_step)
  show ?thesis
  proof (cases b)
    case True
    from visit_traced_grows [of es iter s1 "[kv]"] obtain s' tr' where
      "visit_entries es (traced iter) (s1, [kv]) = (s', [kv] @ tr')" by blast
    then have "visit_entries (kv # es) (traced iter) (s0, []) = (s', kv # tr')"
      using st True by simp
    then show ?thesis using it True by auto
  next
    case False
    then have "visit_entries (kv # es) (traced iter) (s0, []) = (s1, kv # [])"
      using st by simp
    then show ?thesis by blast
  qed
qed

section \<open>Facts used by the claims\<close>

lemma scenario_results:
  assumes "env_ok e" "cb (Val ''world'') True" "\<not> cb2 (Val ''planet'') True"
  shows "map_option fst (exec_ops e (New c) (scenario (Some cb) (Some cb2))) =
     Some [RetPair (nil, False), RetPair (Val ''world'', True), RetPair (Val ''planet'', True),
           RetPair (nil, False), RetPair (Val ''planet'', True)]"
proof -
  let ?cs = "scenario (Some cb) (Some cb2)"
  have "OpLen \<notin> set ?cs" by (simp add: scenario_def)
  with exec_ops_refines [OF assms(1) Map_inv_New, of ?cs c] obtain rs and m' :: "string Map" where
    r: "exec_ops e (New c) ?cs = Some (rs, m')" "spec_run (contents e (New c)) ?cs rs (contents e m')"
    by auto
  from r(2) have "rs = [RetPair (nil, False), RetPair (Val ''world'', True), RetPair (Val ''planet'', True),
           RetPair (nil, False), RetPair (Val ''planet'', True)]"
    using assms(2,3)
    by (auto simp: scenario_def contents_New spec_lookup_def accepted_def split: list.splits)
  with r(1) show ?thesis by simp
qed

lemma and_pow_mask_uint:
  fixes w :: "64 word"
  shows "uint (w AND word_of_int (2 ^ k - 1)) = uint w mod 2 ^ k"
proof -
  have m: "(word_of_int (2 ^ k - 1) :: 64 word) = mask k"
    by (simp add: mask_eq_exp_minus_1)
  have "uint (w AND mask k) = take_bit k (uint w)"
    by (simp add: unsigned_take_bit_eq flip: take_bit_eq_mask)
  then have "uint (w AND mask k) = uint w mod 2 ^ k"
    by (simp only: take_bit_eq_mod)
  with m show ?thesis by simp
qed

lemma and_pow_mask_uint':
  fixes w :: "64 word"
  shows "uint (w AND (2 ^ k - 1)) = uint w mod 2 ^ k"
  using and_pow_mask_uint [of w k] by simp

lemma dom_foldl_Set:
  "dom (foldl spec_next a (map (\<lambda>kv. OpSet (fst kv) (snd kv)) kvs)) = dom a \<union> fst ` set kvs"
  by (induction kvs arbitrary: a) auto

lemma dom_foldl_Delete:
  "dom (foldl spec_next a (map OpDelete ds)) = dom a - set ds"
  by (induction ds arbitrary: a) auto

lemma Len_inv:
  assumes "env_ok e" "Map_inv e m" "int (card (dom (contents e m))) < 2 ^ 63"
  shows "\<exists>m0. initDo e m = Some m0 \<and> init m0 \<and> Map_inv e m0 \<and> contents e m0 = contents e m \<and>
     Len e m = Some (int (card (dom (contents e m))), m0)"
proof -
  from initDo_inv [OF assms(1,2)] obtain m0 where
    m0: "initDo e m = Some m0" "init m0" "Map_inv e m0" "contents e m0 = contents e m"
    by blast
  then show ?thesis using Len_refines [OF m0(2,3)] assms(3)
    by (simp add: ops_initDo(6) [OF m0(1,2)])
qed

lemma hello_map_Set:
  "exec_ops env0 (New 0) [OpSet ''hello'' (Val ''world'') :: (string, 's) op] =
     Some ([RetPair (nil, False)], hello_map)"
proof -
  from Set_inv [OF env0_ok Map_inv_New, of 0 "''hello''" "Val ''world''"]
  obtain m' :: "string Map" where
    m': "Set env0 (New 0) ''hello'' (Val ''world'') = Some (spec_lookup (contents env0 (New 0)) ''hello'', m')"
    by blast
  have eq: "hello_map = m'" by (simp add: hello_map_def m')
  show ?thesis using m' by (simp add: eq ret_pair_def contents_New spec_lookup_def)
qed

lemma spec_next_other_key:
  "\<not> sets_key key c \<Longrightarrow> a key = None \<Longrightarrow> spec_next a c key = None"
  by (cases c) (auto simp: spec_lookup_def)

lemma foldl_never_set:
  "\<not> list_ex (sets_key key) cs \<Longrightarrow> a key = None \<Longrightarrow> foldl spec_next a cs key = None"
  by (induction cs arbitrary: a) (auto simp: spec_next_other_key)

lemma Delete_inv:
  assumes "env_ok e" "Map_inv e m"
  shows "\<exists>m'. Delete e m key = Some (spec_lookup (contents e m) key, m')"
proof -
  from initDo_inv [OF assms] obtain m0 where
    m0: "initDo e m = Some m0" "init m0" "Map_inv e m0" "contents e m0 = contents e m"
    by blast
  from Delete_refines [OF m0(2,3), of key] show ?thesis
    by (auto simp: ops_initDo(3) [OF m0(1,2)] m0(4))
qed

lemma exec_op_returns:
  assumes "env_ok e" "Map_inv e m"
  shows "exec_op e m c \<noteq> None"
  using exec_op_step [OF assms, of c] by auto

section \<open>The claims\<close>

text \<open>
  C1. Run from a new map, any sequence of \<^verbatim>\<open>Set\<close>, \<^verbatim>\<open>Get\<close>, \<^verbatim>\<open>Delete\<close>, \<^verbatim>\<open>SetAccept\<close>,
  \<^verbatim>\<open>DeleteAccept\<close>, \<^verbatim>\<open>Len\<close>, \<^verbatim>\<open>Range\<close> and \<^verbatim>\<open>Clear\<close> calls returns, and what the calls
  return and the key/value contents they leave are those of a single logical map on
  which the same calls are made: routing each key to a shard and combining the shards
  is not observable. \<^verbatim>\<open>Range\<close> visits the entries of the logical map in some order,
  each once. The sequence is shorter than \<open>2^63\<close> calls, so that \<^verbatim>\<open>Len\<close> cannot overflow.
\<close>

theorem sharded_map_refines_logical_map:
  assumes "env_ok e" "int (length cs) < 2 ^ 63"
  shows "\<exists>rs m'. exec_ops e (New c) cs = Some (rs, m') \<and> spec_run Map.empty cs rs (contents e m')"
  using exec_ops_refines [OF assms(1) Map_inv_New, of cs c] assms(2)
  by (auto simp: contents_New)

theorem sharded_map_refines_logical_map_witness:
  "env_ok env0 \<and> int (length demo_calls) < 2 ^ 63 \<and>
   (\<exists>rs m'. exec_ops env0 (New 0) demo_calls = Some (rs, m') \<and>
      spec_run Map.empty demo_calls rs (contents env0 m')) \<and>
   map_option fst (exec_ops env0 (New 0) demo_calls) =
     Some [RetPair (nil, False), RetPair (Val ''x'', True), RetPair (nil, False),
           RetPair (Val ''x'', True), RetLen 1, RetRange 1, RetPair (Val ''y'', True), RetClear]"
proof -
  have e: "env_ok env0" by (simp add: env_ok_def env0_def)
  have l: "int (length demo_calls) < 2 ^ 63" by (simp add: demo_calls_def)
  have r: "map_option fst (exec_ops env0 (New 0) demo_calls) =
     Some [RetPair (nil, False), RetPair (Val ''x'', True), RetPair (nil, False),
           RetPair (Val ''x'', True), RetLen 1, RetRange 1, RetPair (Val ''y'', True), RetClear]"
    by code_simp
  from sharded_map_refines_logical_map [OF e l, of 0] e l r show ?thesis by blast
qed

text \<open>
  C2. When \<^verbatim>\<open>SetAccept(key, value, accept)\<close> calls the callback and the callback returns
  false, \<^verbatim>\<open>SetAccept\<close> returns \<^verbatim>\<open>(nil, false)\<close> and a \<^verbatim>\<open>Get\<close> of that key afterwards
  returns what a \<^verbatim>\<open>Get\<close> returned before the call: the previous value is back, or the
  key is absent again. The callback is called with what \<^verbatim>\<open>Get\<close> returned before.
\<close>

theorem SetAccept_reject_restores:
  assumes "env_ok e" "Map_inv e m" "Get e m key = Some (r, m0)" "\<not> f (fst r) (snd r)"
  shows "\<exists>m'. SetAccept e m key v (Some f) = Some ((nil, False), m') \<and>
     (\<exists>m''. Get e m' key = Some (r, m''))"
proof -
  from Get_inv [OF assms(1,2), of key] assms(3) have
    mi: "initDo e m = Some m0" "init m0" "Map_inv e m0" "r = spec_lookup (contents e m0) key"
    by auto
  from SetAccept_refines [OF mi(2,3), of key v "Some f"] assms(4) obtain m' where
    m': "SetAccept e m0 key v (Some f) = Some ((nil, False), m')" "init m'" "Map_inv e m'"
      "contents e m' = contents e m0"
    by (auto simp: accepted_def mi(4))
  have "Get e m' key = Some (r, m')"
    using Get_run [OF m'(2,3), of key] by (simp add: m'(4) mi(4))
  then show ?thesis using m'(1) by (auto simp: ops_initDo(4) [OF mi(1,2)])
qed

theorem SetAccept_reject_restores_witness:
  "env_ok env0 \<and> Map_inv env0 hello_map \<and>
   Get env0 hello_map ''hello'' = Some ((Val ''world'', True), hello_map) \<and>
   \<not> reject_all (Val ''world'') True \<and>
   (\<exists>m'. SetAccept env0 hello_map ''hello'' (Val ''planet'') (Some reject_all) = Some ((nil, False), m') \<and>
      (\<exists>m''. Get env0 m' ''hello'' = Some ((Val ''world'', True), m'')))"
proof -
  have r: "\<not> reject_all (fst (Val ''world'', True)) (snd (Val ''world'', True))"
    by (simp add: reject_all_def)
  from SetAccept_reject_restores [where f = reject_all and v = "Val ''planet''",
      OF env0_ok hello_map_facts(2,4) r]
  show ?thesis using env0_ok hello_map_facts(2,4) by (simp add: reject_all_def)
qed

text \<open>
  C3, as amended. In the spec's scenario, \<^verbatim>\<open>Set("hello","world")\<close> returns
  \<^verbatim>\<open>(nil, false)\<close>; \<^verbatim>\<open>SetAccept("hello","planet", cb)\<close>, with \<open>cb\<close> accepting the previous
  value \<open>world\<close>, returns \<^verbatim>\<open>("world", true)\<close> and \<^verbatim>\<open>Get("hello")\<close> then returns
  \<^verbatim>\<open>("planet", true)\<close>; \<^verbatim>\<open>SetAccept("hello","world", cb2)\<close>, with \<open>cb2\<close> rejecting the
  previous value \<open>planet\<close>, returns \<^verbatim>\<open>(nil, false)\<close>, and \<^verbatim>\<open>Get("hello")\<close> then returns
  \<^verbatim>\<open>("planet", true)\<close>: the rejected call leaves the value it found.
\<close>

theorem scenario_reject_keeps_planet:
  assumes "env_ok e" "cb (Val ''world'') True" "\<not> cb2 (Val ''planet'') True"
  shows "map_option fst (exec_ops e (New c) (scenario (Some cb) (Some cb2))) =
     Some [RetPair (nil, False), RetPair (Val ''world'', True), RetPair (Val ''planet'', True),
           RetPair (nil, False), RetPair (Val ''planet'', True)]"
  using assms by (rule scenario_results)

theorem scenario_reject_keeps_planet_witness:
  "env_ok env0 \<and> accept_all (Val ''world'') True \<and> \<not> reject_all (Val ''planet'') True \<and>
   map_option fst (exec_ops env0 (New 0) (scenario (Some accept_all) (Some reject_all))) =
     Some [RetPair (nil, False), RetPair (Val ''world'', True), RetPair (Val ''planet'', True),
           RetPair (nil, False), RetPair (Val ''planet'', True)]"
proof -
  have a: "accept_all (Val ''world'') True" by (simp add: accept_all_def)
  have r: "\<not> reject_all (Val ''planet'') True" by (simp add: reject_all_def)
  from scenario_reject_keeps_planet [where cb = accept_all and ?cb2.0 = reject_all, OF env0_ok a r, of 0]
  show ?thesis using env0_ok a r by simp
qed

text \<open>
  C3, as the spec states it, ends with \<^verbatim>\<open>Get("hello") = ("world", true)\<close>. Run with one
  CPU, a callback that accepts and a callback that rejects, the five calls do not return
  that.
\<close>

theorem scenario_last_Get_not_world:
  "map_option fst (exec_ops env0 (New 0) (scenario (Some accept_all) (Some reject_all))) \<noteq>
     Some [RetPair (nil, False), RetPair (Val ''world'', True), RetPair (Val ''planet'', True),
           RetPair (nil, False), RetPair (Val ''world'', True)]"
  by code_simp

text \<open>
  C4. For a key that holds the value \<open>v\<close>: when the callback rejects,
  \<^verbatim>\<open>DeleteAccept\<close> returns \<^verbatim>\<open>(nil, false)\<close> and a \<^verbatim>\<open>Get\<close> afterwards finds \<open>v\<close> under the
  key again; when the callback accepts, or there is none, \<^verbatim>\<open>DeleteAccept\<close> returns
  \<^verbatim>\<open>(v, true)\<close> and the key is gone.
\<close>

theorem DeleteAccept_round_trip:
  assumes "env_ok e" "Map_inv e m" "Get e m key = Some ((v, True), m0)"
  shows "\<exists>m'. DeleteAccept e m key accept =
       Some (if accepted accept (v, True) then (v, True) else (nil, False), m') \<and>
     (\<exists>m''. Get e m' key = Some (if accepted accept (v, True) then (nil, False) else (v, True), m''))"
proof -
  from Get_inv [OF assms(1,2), of key] assms(3) have
    mi: "initDo e m = Some m0" "init m0" "Map_inv e m0" "spec_lookup (contents e m0) key = (v, True)"
    by auto
  then have c: "contents e m0 key = Some v"
    by (auto simp: spec_lookup_def split: option.splits)
  from DeleteAccept_refines [OF mi(2,3), of key accept] obtain m' where
    m': "DeleteAccept e m0 key accept =
       Some (if accepted accept (v, True) then (v, True) else (nil, False), m')" "init m'" "Map_inv e m'"
      "contents e m' = (if accepted accept (v, True) then (contents e m0)(key := None) else contents e m0)"
    by (auto simp: mi(4))
  have "Get e m' key = Some (if accepted accept (v, True) then (nil, False) else (v, True), m')"
    using Get_run [OF m'(2,3), of key] by (simp add: m'(4) c spec_lookup_def)
  then show ?thesis using m'(1) by (auto simp: ops_initDo(5) [OF mi(1,2)])
qed

theorem DeleteAccept_round_trip_witness:
  "env_ok env0 \<and> Map_inv env0 hello_map \<and>
   Get env0 hello_map ''hello'' = Some ((Val ''world'', True), hello_map) \<and>
   (\<exists>m'. DeleteAccept env0 hello_map ''hello'' (Some reject_all) = Some ((nil, False), m') \<and>
      (\<exists>m''. Get env0 m' ''hello'' = Some ((Val ''world'', True), m'')))"
  using DeleteAccept_round_trip [OF env0_ok hello_map_facts(2,4), of "Some reject_all"]
    env0_ok hello_map_facts(2,4)
  by (simp add: accepted_def reject_all_def)

text \<open>
  C5. The lazy initialiser sets the shard count to the smallest power of two that is
  at least \<^verbatim>\<open>runtime.NumCPU() * 16\<close>; after any calls on the map the shard count is
  still that number; and for every key \<open>choose_shard\<close> returns the hash of the key
  \<open>AND\<close> the shard count minus one, which is the hash modulo the shard count.
\<close>

theorem shard_count_smallest_power_of_two:
  fixes c :: int
  assumes "env_ok e"
  shows "\<exists>k. \<exists>m0 :: 'v Map. initDo e (New c) = Some m0 \<and> shards m0 = 2 ^ k \<and>
     NumCPU e * 16 \<le> 2 ^ k \<and> (\<forall>j. NumCPU e * 16 \<le> 2 ^ j \<longrightarrow> (2::int) ^ k \<le> 2 ^ j) \<and>
     (\<forall>(cs :: ('v, 's) op list) rs m'.
        exec_ops e (New c) cs = Some (rs, m') \<longrightarrow> cs \<noteq> [] \<longrightarrow> shards m' = 2 ^ k) \<and>
     (\<forall>key. choose_shard e m0 key = uint (Sum64String e key AND word_of_int (shards m0 - 1)) \<and>
        choose_shard e m0 key = uint (Sum64String e key) mod shards m0)"
proof -
  from initDo_New [OF assms, of c] obtain k where
    k: "k \<le> 62" "NumCPU e * 16 \<le> 2 ^ k" "\<forall>j<k. 2 ^ j < NumCPU e * 16"
    "initDo e (New c) = Some (\<lparr>init = True, cap = c, shards = 2 ^ k,
       mus = replicate (2 ^ k) Unlocked,
       maps = replicate (2 ^ k) (Some (rhh_New (wrap64 (c sdiv 2 ^ k))))\<rparr> :: 'v Map)"
    by blast
  let ?m0 = "\<lparr>init = True, cap = c, shards = 2 ^ k, mus = replicate (2 ^ k) Unlocked,
       maps = replicate (2 ^ k) (Some (rhh_New (wrap64 (c sdiv 2 ^ k))))\<rparr> :: 'v Map"
  have least: "(2::int) ^ k \<le> 2 ^ j" if "NumCPU e * 16 \<le> 2 ^ j" for j
  proof -
    have "\<not> j < k" using k(3) that by force
    then show ?thesis by (intro power_increasing) auto
  qed
  have life: "shards m' = 2 ^ k"
    if "exec_ops e (New c) cs = Some (rs, m')" "cs \<noteq> []"
    for cs :: "('v, 's) op list" and rs m'
    using exec_ops_frame [OF assms Map_inv_New that(1) k(4)] that(2) by simp
  have route: "choose_shard e ?m0 key = uint (Sum64String e key AND word_of_int (shards ?m0 - 1))"
    "choose_shard e ?m0 key = uint (Sum64String e key) mod shards ?m0" for key
    using choose_shard_mod [of ?m0 k e key] k(1) by (simp_all add: and_pow_mask_uint')
  show ?thesis
  proof (intro exI conjI allI impI)
    show "initDo e (New c) = Some ?m0" by (rule k(4))
    show "shards ?m0 = 2 ^ k" by simp
    show "NumCPU e * 16 \<le> 2 ^ k" by (rule k(2))
    show "(2::int) ^ k \<le> 2 ^ j" if "NumCPU e * 16 \<le> 2 ^ j" for j by (rule least [OF that])
    show "shards m' = 2 ^ k" if "exec_ops e (New c) cs = Some (rs, m')" "cs \<noteq> []"
      for cs :: "('v, 's) op list" and rs m' by (rule life [OF that])
    show "choose_shard e ?m0 key = uint (Sum64String e key AND word_of_int (shards ?m0 - 1))" for key
      by (rule route(1))
    show "choose_shard e ?m0 key = uint (Sum64String e key) mod shards ?m0" for key
      by (rule route(2))
  qed
qed

theorem shard_count_smallest_power_of_two_witness:
  "env_ok env0 \<and>
   (\<exists>k. \<exists>m0 :: string Map. initDo env0 (New 0) = Some m0 \<and> shards m0 = 2 ^ k \<and>
     NumCPU env0 * 16 \<le> 2 ^ k \<and> (\<forall>j. NumCPU env0 * 16 \<le> 2 ^ j \<longrightarrow> (2::int) ^ k \<le> 2 ^ j) \<and>
     (\<forall>(cs :: (string, unit) op list) rs m'.
        exec_ops env0 (New 0) cs = Some (rs, m') \<longrightarrow> cs \<noteq> [] \<longrightarrow> shards m' = 2 ^ k) \<and>
     (\<forall>key. choose_shard env0 m0 key = uint (Sum64String env0 key AND word_of_int (shards m0 - 1)) \<and>
        choose_shard env0 m0 key = uint (Sum64String env0 key) mod shards m0)) \<and>
   map_option shards (initDo env0 (New 0 :: string Map)) = Some 16 \<and>
   choose_shard env0 hello_map ''hello'' = 5"
proof -
  have s: "map_option shards (initDo env0 (New 0 :: string Map)) = Some 16" by code_simp
  have c: "choose_shard env0 hello_map ''hello'' = 5" by code_simp
  from shard_count_smallest_power_of_two [where 'v = string and 's = unit, OF env0_ok, of 0]
    env0_ok s c
  show ?thesis by blast
qed

text \<open>
  C6. After \<^verbatim>\<open>Set\<close> of \<open>N\<close> distinct keys on a new map, \<^verbatim>\<open>Len\<close> returns \<open>N\<close>; after
  \<^verbatim>\<open>Delete\<close> of \<open>M\<close> distinct keys among them, \<^verbatim>\<open>Len\<close> returns \<open>N - M\<close>. \<open>N\<close> fits a
  64-bit \<^verbatim>\<open>int\<close>.
\<close>

theorem Len_counts_entries:
  fixes c :: int and kvs :: "(string \<times> 'v iface) list"
  assumes "env_ok e" "distinct (map fst kvs)" "int (length kvs) < 2 ^ 63"
    "distinct ds" "set ds \<subseteq> fst ` set kvs"
  shows "\<exists>(rs :: ('v, 's) ret list) m1 m2 (rs' :: ('v, 's) ret list) m3 m4.
     exec_ops e (New c) (map (\<lambda>kv. OpSet (fst kv) (snd kv)) kvs) = Some (rs, m1) \<and>
     Len e m1 = Some (int (length kvs), m2) \<and>
     exec_ops e m2 (map OpDelete ds) = Some (rs', m3) \<and>
     Len e m3 = Some (int (length kvs) - int (length ds), m4)"
proof -
  let ?ins = "map (\<lambda>kv. OpSet (fst kv) (snd kv)) kvs :: ('v, 's) op list"
  let ?del = "map OpDelete ds :: ('v, 's) op list"
  have "OpLen \<notin> set ?ins" by auto
  with exec_ops_refines [OF assms(1) Map_inv_New, of ?ins c] obtain rs and m1 :: "'v Map" where
    r1: "exec_ops e (New c) ?ins = Some (rs, m1)" "Map_inv e m1"
    by auto
  from initDo_inv [OF assms(1) Map_inv_New, of c] obtain mi :: "'v Map" where
    mi: "initDo e (New c) = Some mi" by blast
  from exec_ops_frame [OF assms(1) Map_inv_New r1(1) mi]
  have c1: "contents e m1 = foldl spec_next Map.empty ?ins" by (simp add: contents_New)
  have d1: "dom (contents e m1) = fst ` set kvs" unfolding c1 dom_foldl_Set by simp
  have n1: "card (dom (contents e m1)) = length kvs"
    unfolding d1 using distinct_card [OF assms(2)] by simp
  from Len_inv [OF assms(1) r1(2)] assms(3) obtain m2 where
    m2: "initDo e m1 = Some m2" "init m2" "Map_inv e m2" "contents e m2 = contents e m1"
    "Len e m1 = Some (int (length kvs), m2)"
    by (auto simp: n1)
  have "OpLen \<notin> set ?del" by auto
  with exec_ops_refines [OF assms(1) m2(3), of ?del] obtain rs' m3 where
    r2: "exec_ops e m2 ?del = Some (rs', m3)" "Map_inv e m3"
    by auto
  from exec_ops_frame [OF assms(1) m2(3) r2(1) initDo_init [OF m2(2)]]
  have c3: "contents e m3 = foldl spec_next (contents e m2) ?del" by simp
  have d3: "dom (contents e m3) = fst ` set kvs - set ds"
    unfolding c3 dom_foldl_Delete m2(4) d1 ..
  have "card (fst ` set kvs - set ds) = card (fst ` set kvs) - card (set ds)"
    using assms(5) by (intro card_Diff_subset) auto
  then have n3: "card (dom (contents e m3)) = length kvs - length ds"
    unfolding d3 using distinct_card [OF assms(2)] distinct_card [OF assms(4)] by simp
  have le: "length ds \<le> length kvs"
  proof -
    have "card (set ds) \<le> card (fst ` set kvs)" using assms(5) by (intro card_mono) auto
    then show ?thesis using distinct_card [OF assms(2)] distinct_card [OF assms(4)] by simp
  qed
  from Len_inv [OF assms(1) r2(2)] assms(3) le obtain m4 where
    "Len e m3 = Some (int (length kvs) - int (length ds), m4)"
    by (auto simp: n3 of_nat_diff)
  with r1(1) m2(5) r2(1) show ?thesis by blast
qed

theorem Len_counts_entries_witness:
  "env_ok env0 \<and> distinct (map fst three_entries) \<and> int (length three_entries) < 2 ^ 63 \<and>
   distinct [''b''] \<and> set [''b''] \<subseteq> fst ` set three_entries \<and>
   (\<exists>(rs :: (string, unit) ret list) m1 m2 (rs' :: (string, unit) ret list) m3 m4.
     exec_ops env0 (New 0) (map (\<lambda>kv. OpSet (fst kv) (snd kv)) three_entries) = Some (rs, m1) \<and>
     Len env0 m1 = Some (3, m2) \<and>
     exec_ops env0 m2 (map OpDelete [''b'']) = Some (rs', m3) \<and>
     Len env0 m3 = Some (2, m4))"
proof -
  have h: "distinct (map fst three_entries)" "int (length three_entries) < 2 ^ 63"
    "distinct [''b'']" "set [''b''] \<subseteq> fst ` set three_entries"
    by (simp_all add: three_entries_def)
  have n: "int (length three_entries) = 3" "int (length three_entries) - int (length [''b'']) = 2"
    by (simp_all add: three_entries_def)
  from Len_counts_entries [where 's = unit, OF env0_ok h, of 0]
  show ?thesis using env0_ok h unfolding n by simp
qed

text \<open>
  C7. On a map with at least one entry, \<^verbatim>\<open>Range\<close> calls the visitor at least once,
  first on an entry of the map and with the visitor in its initial state; when that
  first call returns false it is the only call, whatever the number of shards and
  wherever the entries are. The map is as it was, every lock released.
\<close>

theorem Range_stops_when_first_visit_rejects:
  assumes "env_ok e" "Map_inv e m" "Get e m key = Some ((v, True), m0)"
  shows "\<exists>s kv rest. Range e m (traced iter) (s0, []) = Some ((s, kv # rest), m0) \<and>
     (\<exists>m'. Get e m (fst kv) = Some ((snd kv, True), m')) \<and>
     (\<not> fst (iter (fst kv) (snd kv) s0) \<longrightarrow> rest = [])"
proof -
  from Get_inv [OF assms(1,2), of key] assms(3) have
    mi: "initDo e m = Some m0" "init m0" "Map_inv e m0" "spec_lookup (contents e m0) key = (v, True)"
      "contents e m0 = contents e m"
    by auto
  then have c: "contents e m0 key = Some v"
    by (auto simp: spec_lookup_def split: option.splits)
  note en = Map_inv_entries(2) [OF mi(2,3)]
  have "(key, v) \<in> set (entries_from m0 0)" unfolding en using c by (simp add: Map.graph_def)
  then obtain kv es where es: "entries_from m0 0 = kv # es" by (cases "entries_from m0 0") auto
  from visit_traced_head [of kv es iter s0] obtain s rest where
    s: "visit_entries (kv # es) (traced iter) (s0, []) = (s, kv # rest)"
    "\<not> fst (iter (fst kv) (snd kv) s0) \<longrightarrow> rest = []" by blast
  have "Range e m (traced iter) (s0, []) = Some ((s, kv # rest), m0)"
    using Range_refines [OF mi(2,3), of "traced iter" "(s0, [])"]
    by (simp add: ops_initDo(7) [OF mi(1,2)] es s(1) del: visit_entries.simps)
  moreover have "kv \<in> Map.graph (contents e m)" using es en mi(5) by (metis list.set_intros(1))
  then have "contents e m (fst kv) = Some (snd kv)" by (cases kv) (simp add: in_graphD)
  then have "Get e m (fst kv) = Some ((snd kv, True), m0)"
    using Get_inv [OF assms(1,2), of "fst kv"] mi(1) by (simp add: spec_lookup_def)
  ultimately show ?thesis using s(2) by blast
qed

theorem Range_stops_when_first_visit_rejects_witness:
  "env_ok env0 \<and> Map_inv env0 greetings_map \<and>
   Get env0 greetings_map ''hello'' = Some ((Val ''world'', True), greetings_map) \<and>
   Len env0 greetings_map = Some (3, greetings_map) \<and>
   (\<exists>s kv rest. Range env0 greetings_map (traced stop_on_hi) ((), []) = Some ((s, kv # rest), greetings_map) \<and>
     (\<exists>m'. Get env0 greetings_map (fst kv) = Some ((snd kv, True), m')) \<and>
     (\<not> fst (stop_on_hi (fst kv) (snd kv) ()) \<longrightarrow> rest = [])) \<and>
   \<not> fst (stop_on_hi ''hi'' (Val ''there'') ()) \<and>
   Range env0 greetings_map (traced stop_on_hi) ((), []) =
     Some (((), [(''hi'', Val ''there'')]), greetings_map) \<and>
   Range env0 greetings_map (traced visit_all) ((), []) =
     Some (((), [(''hi'', Val ''there''), (''hey'', Val ''you''), (''hello'', Val ''world'')]), greetings_map)"
proof -
  have g: "Get env0 greetings_map ''hello'' = Some ((Val ''world'', True), greetings_map)"
    by code_simp
  have l: "Len env0 greetings_map = Some (3, greetings_map)" by code_simp
  have n: "\<not> fst (stop_on_hi ''hi'' (Val ''there'') ())" by (simp add: stop_on_hi_def)
  have r1: "Range env0 greetings_map (traced stop_on_hi) ((), []) =
     Some (((), [(''hi'', Val ''there'')]), greetings_map)" by code_simp
  have r2: "Range env0 greetings_map (traced visit_all) ((), []) =
     Some (((), [(''hi'', Val ''there''), (''hey'', Val ''you''), (''hello'', Val ''world'')]), greetings_map)"
    by code_simp
  from Range_stops_when_first_visit_rejects [where iter = stop_on_hi and ?s0.0 = "()",
      OF env0_ok greetings_map_inv g]
  show ?thesis using env0_ok greetings_map_inv g l n r1 r2 by blast
qed

text \<open>
  C8. For every map state, \<^verbatim>\<open>Clear\<close> returns; afterwards \<^verbatim>\<open>Len\<close> returns 0 and \<^verbatim>\<open>Get\<close> of
  every key returns \<^verbatim>\<open>(nil, false)\<close>. The map after \<^verbatim>\<open>Clear\<close> is the initialised map with
  every store replaced by a new empty store of capacity hint \<^verbatim>\<open>cap / shards\<close>: the
  capacity, the shard count, the mutexes and the routing of every key are unchanged.
  On a map reached by calls from a new map it is the very state that lazy
  initialisation built, capacity hints included.
\<close>

theorem Clear_empties_every_map:
  fixes m :: "'v Map"
  assumes "env_ok e" "Map_inv e m"
  shows "\<exists>m0 m'. initDo e m = Some m0 \<and> Clear e m = Some m' \<and>
     Len e m' = Some (0, m') \<and> (\<forall>key. Get e m' key = Some ((nil, False), m')) \<and>
     m' = m0\<lparr>maps := replicate (nat (shards m0)) (Some (rhh_New (wrap64 (cap m0 sdiv shards m0))))\<rparr> \<and>
     (\<forall>key. choose_shard e m' key = choose_shard e m0 key) \<and>
     (\<forall>c (cs :: ('v, 's) op list) rs.
        exec_ops e (New c) cs = Some (rs, m) \<longrightarrow> initDo e (New c) = Some m')"
proof -
  from initDo_inv [OF assms] obtain m0 where
    m0: "initDo e m = Some m0" "init m0" "Map_inv e m0" by blast
  let ?m' = "m0\<lparr>maps := replicate (nat (shards m0)) (Some (rhh_New (wrap64 (cap m0 sdiv shards m0))))\<rparr>"
  note cr = Clear_refines [OF m0(2,3)]
  have cl: "Clear e m = Some ?m'" using cr(1) by (simp add: ops_initDo(8) [OF m0(1,2)])
  have i': "init ?m'" using m0(2) by simp
  have len: "Len e ?m' = Some (0, ?m')"
    using Len_refines [OF i' cr(2)] by (simp add: cr(3))
  have get: "Get e ?m' key = Some ((nil, False), ?m')" for key
    using Get_run [OF i' cr(2), of key] by (simp add: cr(3) spec_lookup_def)
  have route: "choose_shard e ?m' key = choose_shard e m0 key" for key
    by (simp add: choose_shard_def)
  have reach: "initDo e (New c) = Some ?m'"
    if "exec_ops e (New c) cs = Some (rs, m)" for c and cs :: "('v, 's) op list" and rs
  proof -
    from initDo_inv [OF assms(1) Map_inv_New, of c] obtain mi :: "'v Map" where
      mi: "initDo e (New c) = Some mi" by blast
    from Clear_reached [OF assms(1) that mi] cl have "mi = ?m'" by simp
    with mi show ?thesis by simp
  qed
  show ?thesis
  proof (intro exI conjI allI impI)
    show "initDo e m = Some m0" by (rule m0(1))
    show "Clear e m = Some ?m'" by (rule cl)
    show "Len e ?m' = Some (0, ?m')" by (rule len)
    show "Get e ?m' key = Some ((nil, False), ?m')" for key by (rule get)
    show "?m' = ?m'" by (rule refl)
    show "choose_shard e ?m' key = choose_shard e m0 key" for key by (rule route)
    show "initDo e (New c) = Some ?m'"
      if "exec_ops e (New c) cs = Some (rs, m)" for c and cs :: "('v, 's) op list" and rs
      by (rule reach [OF that])
  qed
qed

theorem Clear_empties_every_map_witness:
  "env_ok env0 \<and> Map_inv env0 greetings_map \<and>
   exec_ops env0 (New 0) greeting_calls =
     Some ([RetPair (nil, False), RetPair (nil, False), RetPair (nil, False)], greetings_map) \<and>
   Len env0 greetings_map = Some (3, greetings_map) \<and>
   Get env0 greetings_map ''hello'' = Some ((Val ''world'', True), greetings_map) \<and>
   (\<exists>m0 m'. initDo env0 greetings_map = Some m0 \<and> Clear env0 greetings_map = Some m' \<and>
     Len env0 m' = Some (0, m') \<and> (\<forall>key. Get env0 m' key = Some ((nil, False), m')) \<and>
     m' = m0\<lparr>maps := replicate (nat (shards m0)) (Some (rhh_New (wrap64 (cap m0 sdiv shards m0))))\<rparr> \<and>
     (\<forall>key. choose_shard env0 m' key = choose_shard env0 m0 key) \<and>
     initDo env0 (New 0) = Some m') \<and>
   Clear env0 greetings_map \<noteq> Some greetings_map \<and>
   map_option (\<lambda>m'. map (map_option fst) [Get env0 m' ''hello'', Get env0 m' ''hi'', Get env0 m' ''hey''])
       (Clear env0 greetings_map) =
     Some [Some (nil, False), Some (nil, False), Some (nil, False)]"
proof -
  have l: "Len env0 greetings_map = Some (3, greetings_map)" by code_simp
  have g: "Get env0 greetings_map ''hello'' = Some ((Val ''world'', True), greetings_map)"
    by code_simp
  have n: "Clear env0 greetings_map \<noteq> Some greetings_map" by code_simp
  have a: "map_option (\<lambda>m'. map (map_option fst) [Get env0 m' ''hello'', Get env0 m' ''hi'', Get env0 m' ''hey''])
       (Clear env0 greetings_map) =
     Some [Some (nil, False), Some (nil, False), Some (nil, False)]" by code_simp
  from Clear_empties_every_map [where 's = unit, OF env0_ok greetings_map_inv] obtain m0 m' where
    c: "initDo env0 greetings_map = Some m0" "Clear env0 greetings_map = Some m'"
     "Len env0 m' = Some (0, m')" "\<forall>key. Get env0 m' key = Some ((nil, False), m')"
     "m' = m0\<lparr>maps := replicate (nat (shards m0)) (Some (rhh_New (wrap64 (cap m0 sdiv shards m0))))\<rparr>"
     "\<forall>key. choose_shard env0 m' key = choose_shard env0 m0 key"
     "\<forall>c (cs :: (string, unit) op list) rs.
        exec_ops env0 (New c) cs = Some (rs, greetings_map) \<longrightarrow> initDo env0 (New c) = Some m'"
    by blast
  from c(7) greetings_map_run have "initDo env0 (New 0) = Some m'" by blast
  with c(1-6) env0_ok greetings_map_inv greetings_map_run l g n a show ?thesis by blast
qed

text \<open>
  C9. For a key that no \<^verbatim>\<open>Set\<close> or \<^verbatim>\<open>SetAccept\<close> call has named, on any map reached by
  calls from a new map, \<^verbatim>\<open>Get\<close> and \<^verbatim>\<open>Delete\<close> return \<^verbatim>\<open>(nil, false)\<close>; on a new map,
  whatever its capacity hint, \<^verbatim>\<open>Get\<close> and \<^verbatim>\<open>Delete\<close> return \<^verbatim>\<open>(nil, false)\<close> and \<^verbatim>\<open>Len\<close>
  returns 0. Each of these calls returns a value: absence is the flag \<^verbatim>\<open>false\<close> with
  the value \<^verbatim>\<open>nil\<close>, not a failure.
\<close>

theorem never_set_key_is_absent:
  fixes c :: int and m :: "'v Map" and cs :: "('v, 's) op list"
  assumes "env_ok e" "exec_ops e (New c) cs = Some (rs, m)" "\<not> list_ex (sets_key key) cs"
  shows "(\<exists>m'. Get e m key = Some ((nil, False), m')) \<and>
     (\<exists>m'. Delete e m key = Some ((nil, False), m')) \<and>
     (\<exists>m' :: 'v Map. Get e (New c) key = Some ((nil, False), m')) \<and>
     (\<exists>m' :: 'v Map. Delete e (New c) key = Some ((nil, False), m')) \<and>
     (\<exists>m' :: 'v Map. Len e (New c) = Some (0, m'))"
proof -
  from initDo_inv [OF assms(1) Map_inv_New, of c] obtain mi :: "'v Map" where
    mi: "initDo e (New c) = Some mi" by blast
  from exec_ops_frame [OF assms(1) Map_inv_New assms(2) mi]
  have fr: "Map_inv e m" "contents e m = foldl spec_next Map.empty cs"
    by (simp_all add: contents_New)
  have c: "contents e m key = None" unfolding fr(2) by (rule foldl_never_set [OF assms(3)]) simp
  have g: "\<exists>m'. Get e m key = Some ((nil, False), m')"
    using Get_inv [OF assms(1) fr(1), of key] by (auto simp: spec_lookup_def c)
  have d: "\<exists>m'. Delete e m key = Some ((nil, False), m')"
    using Delete_inv [OF assms(1) fr(1), of key] by (auto simp: spec_lookup_def c)
  have g0: "\<exists>m' :: 'v Map. Get e (New c) key = Some ((nil, False), m')"
    using Get_inv [OF assms(1) Map_inv_New, of c key] by (auto simp: spec_lookup_def contents_New)
  have d0: "\<exists>m' :: 'v Map. Delete e (New c) key = Some ((nil, False), m')"
    using Delete_inv [OF assms(1) Map_inv_New, of c key] by (auto simp: spec_lookup_def contents_New)
  have l0: "\<exists>m' :: 'v Map. Len e (New c) = Some (0, m')"
    using Len_inv [OF assms(1) Map_inv_New, of c] by (auto simp: contents_New)
  from g d g0 d0 l0 show ?thesis by blast
qed

theorem never_set_key_is_absent_witness:
  "env_ok env0 \<and>
   exec_ops env0 (New 0) [OpSet ''hello'' (Val ''world'') :: (string, unit) op] = Some ([RetPair (nil, False)], hello_map) \<and>
   \<not> list_ex (sets_key ''hi'') [OpSet ''hello'' (Val ''world'') :: (string, unit) op] \<and>
   (\<exists>m'. Get env0 hello_map ''hi'' = Some ((nil, False), m')) \<and>
   (\<exists>m'. Delete env0 hello_map ''hi'' = Some ((nil, False), m')) \<and>
   (\<exists>m' :: string Map. Get env0 (New 0) ''hi'' = Some ((nil, False), m')) \<and>
   (\<exists>m' :: string Map. Delete env0 (New 0) ''hi'' = Some ((nil, False), m')) \<and>
   (\<exists>m' :: string Map. Len env0 (New 0) = Some (0, m'))"
proof -
  have n: "\<not> list_ex (sets_key ''hi'') [OpSet ''hello'' (Val ''world'') :: (string, unit) op]"
    by simp
  from never_set_key_is_absent [OF env0_ok hello_map_Set [where 's = unit] n]
  show ?thesis using env0_ok hello_map_Set [where 's = unit] n by blast
qed

text \<open>
  C10. After lazy initialisation the shard count is a power of two and at least 1,
  there are as many mutexes and as many stores as shards, and for every key the index
  that \<open>choose_shard\<close> returns is at least 0 and below the shard count, so that the
  mutex and the store at that index exist; and every call of the public interface
  returns, that is, none indexes outside the two slices.
\<close>

theorem shard_index_in_bounds:
  fixes m :: "'v Map"
  assumes "env_ok e" "Map_inv e m"
  shows "\<exists>m0 k. initDo e m = Some m0 \<and> shards m0 = 2 ^ k \<and> 1 \<le> shards m0 \<and>
     length (mus m0) = nat (shards m0) \<and> length (maps m0) = nat (shards m0) \<and>
     (\<forall>key. 0 \<le> choose_shard e m0 key \<and> choose_shard e m0 key < shards m0 \<and>
        index (mus m0) (choose_shard e m0 key) \<noteq> None \<and>
        shard m0 (choose_shard e m0 key) \<noteq> None) \<and>
     (\<forall>c :: ('v, 's) op. exec_op e m c \<noteq> None)"
proof -
  from initDo_inv [OF assms] obtain m0 where
    m0: "initDo e m = Some m0" "init m0" "Map_inv e m0" by blast
  from Map_inv_pow [OF m0(2,3)] obtain k where k: "shards m0 = 2 ^ k" by blast
  note fr = Map_inv_frame [OF m0(2,3)]
  have len: "length (mus m0) = nat (shards m0)" using fr(1) by (metis length_replicate)
  have route: "0 \<le> choose_shard e m0 key \<and> choose_shard e m0 key < shards m0 \<and>
        index (mus m0) (choose_shard e m0 key) \<noteq> None \<and>
        shard m0 (choose_shard e m0 key) \<noteq> None" for key
  proof -
    note ix = Map_inv_index(1,3) [OF m0(2,3), of key]
    from Map_inv_store [OF m0(2,3) ix] have "shard m0 (choose_shard e m0 key) \<noteq> None" by auto
    moreover have "index (mus m0) (choose_shard e m0 key) \<noteq> None"
      using ix len by (simp add: index_def)
    ultimately show ?thesis using ix by simp
  qed
  show ?thesis
  proof (intro exI conjI allI)
    show "initDo e m = Some m0" by (rule m0(1))
    show "shards m0 = 2 ^ k" by (rule k)
    show "1 \<le> shards m0" using fr(4) by simp
    show "length (mus m0) = nat (shards m0)" by (rule len)
    show "length (maps m0) = nat (shards m0)" by (rule fr(2))
    show "0 \<le> choose_shard e m0 key" "choose_shard e m0 key < shards m0"
      "index (mus m0) (choose_shard e m0 key) \<noteq> None"
      "shard m0 (choose_shard e m0 key) \<noteq> None" for key
      using route [of key] by simp_all
    show "exec_op e m c \<noteq> None" for c :: "('v, 's) op"
      by (rule exec_op_returns [OF assms])
  qed
qed

theorem shard_index_in_bounds_witness:
  "env_ok env0 \<and> Map_inv env0 hello_map \<and>
   (\<exists>m0 k. initDo env0 hello_map = Some m0 \<and> shards m0 = 2 ^ k \<and> 1 \<le> shards m0 \<and>
     length (mus m0) = nat (shards m0) \<and> length (maps m0) = nat (shards m0) \<and>
     (\<forall>key. 0 \<le> choose_shard env0 m0 key \<and> choose_shard env0 m0 key < shards m0 \<and>
        index (mus m0) (choose_shard env0 m0 key) \<noteq> None \<and>
        shard m0 (choose_shard env0 m0 key) \<noteq> None) \<and>
     (\<forall>c :: (string, unit) op. exec_op env0 hello_map c \<noteq> None))"
  using shard_index_in_bounds [where 's = unit, OF env0_ok hello_map_facts(2)] env0_ok hello_map_facts(2)
  by blast

end
